theory Spec2Isabelle
  imports Main
begin

section \<open>The analog-in source block of gr-m2k\<close>

text \<open>
  A model of \<^verbatim>\<open>lib/analog_in_source_impl.cc\<close>: the static context registry
  (\<^verbatim>\<open>get_context\<close>, \<^verbatim>\<open>remove_contexts\<close>), the refill thread
  (\<^verbatim>\<open>refill_buffer\<close>), the streaming call (\<^verbatim>\<open>work\<close>) and the lifecycle
  hooks (\<^verbatim>\<open>start\<close>, \<^verbatim>\<open>stop\<close>).

  Raw samples are \<^verbatim>\<open>double\<close> in the source; their arithmetic is not modelled. The type
  of a raw sample is a type variable \<open>'r\<close>, the type of an output item is \<open>'o\<close>, and the
  conversions of libm2k and boost are parameters (record \<open>conversions\<close>).
\<close>

datatype error =
    ContextOpenFailed   \<comment> \<open>\<^verbatim>\<open>std::runtime_error("Unable to create the context!")\<close>\<close>
  | ChannelOutOfRange   \<comment> \<open>\<^verbatim>\<open>d_channels[i]\<close> past the end of the vector\<close>
  | SampleOutOfRange    \<comment> \<open>\<^verbatim>\<open>d_samples[c]\<close> or \<^verbatim>\<open>d_samples[c][j]\<close> past the end of the vector\<close>
  | BadCast             \<comment> \<open>\<^verbatim>\<open>boost::bad_lexical_cast\<close>\<close>

subsection \<open>Shared context registry\<close>

text \<open>
  \<^verbatim>\<open>s_contexts\<close> is a \<^verbatim>\<open>std::map<std::string, M2k *>\<close>. A context pointer is a value
  of type \<open>'c\<close>. The libm2k functions \<^verbatim>\<open>m2kOpen\<close> (null pointer on failure, here
  \<open>None\<close>) and \<^verbatim>\<open>getUri\<close> are parameters. \<open>closed_log\<close> records the calls of
  \<^verbatim>\<open>contextClose\<close>, in order.
\<close>

record 'c registry =
  s_contexts :: "string \<rightharpoonup> 'c"
  closed_log :: "'c list"

definition map_insert :: "('k \<rightharpoonup> 'v) \<Rightarrow> 'k \<Rightarrow> 'v \<Rightarrow> ('k \<rightharpoonup> 'v)" where
  \<comment> \<open>\<^verbatim>\<open>std::map::insert\<close>: an existing key keeps its value\<close>
  "map_insert m k v = (case m k of None \<Rightarrow> m(k \<mapsto> v) | Some _ \<Rightarrow> m)"

definition get_context ::
  "(string \<Rightarrow> 'c option) \<Rightarrow> ('c \<Rightarrow> string) \<Rightarrow> string \<Rightarrow> 'c registry \<Rightarrow> error + ('c \<times> 'c registry)" where
  "get_context m2kOpen getUri uri reg =
     (case s_contexts reg uri of
        None \<Rightarrow>
          (case m2kOpen uri of
             None \<Rightarrow> Inl ContextOpenFailed
           | Some ctx \<Rightarrow>
               Inr (ctx, reg\<lparr>s_contexts := map_insert (s_contexts reg) (getUri ctx) ctx\<rparr>))
      | Some ctx \<Rightarrow> Inr (ctx, reg))"

definition remove_contexts :: "string \<Rightarrow> 'c registry \<Rightarrow> 'c registry" where
  "remove_contexts uri reg =
     (case s_contexts reg uri of
        Some ctx \<Rightarrow> reg\<lparr>s_contexts := (s_contexts reg)(uri := None),
                        closed_log := closed_log reg @ [ctx]\<rparr>
      | None \<Rightarrow> reg)"

subsection \<open>The block instance\<close>

text \<open>
  The members of \<^verbatim>\<open>analog_in_source_impl\<close> that the buffering code reads or writes.
  \<^verbatim>\<open>d_items_in_buffer\<close> is an \<^verbatim>\<open>unsigned long\<close>; it only ever holds the size of a
  vector or such a size minus a smaller number, so it is a \<open>nat\<close> here. The cast of
  \<^verbatim>\<open>noutput_items\<close> to \<^verbatim>\<open>unsigned long\<close> is written out in \<open>to_ulong\<close>.
\<close>

record 'r inst =
  d_uri :: string
  d_buffer_size :: int
  d_channels :: "int list"
  d_stream_voltage_values :: bool
  d_samples :: "'r list list"
  d_items_in_buffer :: nat
  d_sample_index :: nat
  d_empty_buffer :: bool
  d_thread_stopped :: bool

text \<open>
  The constructor, as far as the registry and the members go: \<^verbatim>\<open>get_context\<close> runs
  first and its exception leaves the constructor, so no instance exists. \<open>members\<close> gives
  the values of the members that the constructor does not set (the header is not part of
  the sources).
\<close>

definition construct ::
  "(string \<Rightarrow> 'c option) \<Rightarrow> ('c \<Rightarrow> string) \<Rightarrow> 'r inst \<Rightarrow> string \<Rightarrow> int \<Rightarrow> int list \<Rightarrow> bool \<Rightarrow>
   'c registry \<Rightarrow> error + ('r inst \<times> 'c registry)" where
  "construct m2kOpen getUri members uri buffer_size channels stream_voltage_values reg =
     (case get_context m2kOpen getUri uri reg of
        Inl e \<Rightarrow> Inl e
      | Inr (ctx, reg') \<Rightarrow>
          Inr (members\<lparr>d_uri := uri, d_buffer_size := buffer_size, d_channels := channels,
                       d_stream_voltage_values := stream_voltage_values,
                       d_samples := [[], []]\<rparr>, reg'))"

text \<open>
  The conversions of one sample: \<open>raw_to_volts c x\<close> is
  \<^verbatim>\<open>lexical_cast<float>(convertRawToVolts(c, x))\<close>, \<open>raw_to_short x\<close> is
  \<^verbatim>\<open>lexical_cast<short>(x)\<close>; \<open>None\<close> is the exception of the cast.
\<close>

record ('r, 'o) conversions =
  raw_to_volts :: "nat \<Rightarrow> 'r \<Rightarrow> 'o option"
  raw_to_short :: "'r \<Rightarrow> 'o option"

definition convert :: "('r, 'o) conversions \<Rightarrow> bool \<Rightarrow> nat \<Rightarrow> 'r \<Rightarrow> 'o option" where
  \<comment> \<open>the two branches of \<^verbatim>\<open>if (d_stream_voltage_values)\<close>, for one sample\<close>
  "convert cv stream_voltage_values c x =
     (if stream_voltage_values then raw_to_volts cv c x else raw_to_short cv x)"

definition to_ulong :: "int \<Rightarrow> nat" where
  \<comment> \<open>\<^verbatim>\<open>(unsigned long) noutput_items\<close>, 64 bits\<close>
  "to_ulong n = nat (n mod 2 ^ 64)"

definition to_int :: "nat \<Rightarrow> int" where
  \<comment> \<open>\<^verbatim>\<open>(int) nb_samples\<close>, 32 bits, two's complement\<close>
  "to_int n = (int n + 2 ^ 31) mod 2 ^ 32 - 2 ^ 31"

subsection \<open>The copy loops of work\<close>

text \<open>
  \<^verbatim>\<open>while (!d_channels[channel_index]) channel_index++;\<close>
  The source has no bound check; reading past the end of the vector is the error
  \<open>ChannelOutOfRange\<close> here.
\<close>

function skip_inactive :: "int list \<Rightarrow> nat \<Rightarrow> error + nat" where
  "skip_inactive chans ci =
     (if length chans \<le> ci then Inl ChannelOutOfRange
      else if chans ! ci = 0 then skip_inactive chans (Suc ci)
      else Inr ci)"
  by pat_completeness auto
termination
  by (relation "measure (\<lambda>(chans, ci). length chans - ci)") auto

declare skip_inactive.simps [simp del]

definition sample_at :: "'r list list \<Rightarrow> nat \<Rightarrow> nat \<Rightarrow> error + 'r" where
  \<comment> \<open>\<^verbatim>\<open>d_samples[channel_index][j]\<close>\<close>
  "sample_at samples c j =
     (if c < length samples \<and> j < length (samples ! c) then Inr (samples ! c ! j)
      else Inl SampleOutOfRange)"

text \<open>
  The inner loop over \<^verbatim>\<open>sample_index\<close>: \<open>copy_samples cv s c m si\<close> runs the \<open>m\<close>
  iterations that start at \<^verbatim>\<open>sample_index = si\<close> and gives the items written to
  \<^verbatim>\<open>out[si]\<close>, \<^verbatim>\<open>out[si + 1]\<close>, ...
\<close>

fun copy_samples :: "('r, 'o) conversions \<Rightarrow> 'r inst \<Rightarrow> nat \<Rightarrow> nat \<Rightarrow> nat \<Rightarrow> error + 'o list" where
  "copy_samples cv s c 0 si = Inr []"
| "copy_samples cv s c (Suc m) si =
     (case sample_at (d_samples s) c (si + d_sample_index s) of
        Inl e \<Rightarrow> Inl e
      | Inr x \<Rightarrow>
          (case convert cv (d_stream_voltage_values s) c x of
             None \<Rightarrow> Inl BadCast
           | Some v \<Rightarrow>
               (case copy_samples cv s c m (Suc si) of
                  Inl e \<Rightarrow> Inl e
                | Inr vs \<Rightarrow> Inr (v # vs))))"

text \<open>
  One output region after a call: the \<^verbatim>\<open>buffer_start\<close> tag added to it, if any, as
  (offset, value), and the items written to it.
\<close>

type_synonym 'o region = "(nat \<times> nat) option \<times> 'o list"

text \<open>
  The outer loop over \<^verbatim>\<open>out_stream_index\<close>: \<open>copy_streams cv s written nb m osi ci\<close>
  runs the \<open>m\<close> iterations that start at \<^verbatim>\<open>out_stream_index = osi\<close>,
  \<^verbatim>\<open>channel_index = ci\<close>. \<open>written\<close> is \<^verbatim>\<open>nitems_written\<close> of the scheduler. An
  exception ends the call; the regions written before it are not part of the result.
\<close>

fun copy_streams ::
  "('r, 'o) conversions \<Rightarrow> 'r inst \<Rightarrow> (nat \<Rightarrow> nat) \<Rightarrow> nat \<Rightarrow> nat \<Rightarrow> nat \<Rightarrow> nat \<Rightarrow> error + 'o region list" where
  "copy_streams cv s written nb 0 osi ci = Inr []"
| "copy_streams cv s written nb (Suc m) osi ci =
     (case skip_inactive (d_channels s) ci of
        Inl e \<Rightarrow> Inl e
      | Inr c \<Rightarrow>
          (case copy_samples cv s c nb 0 of
             Inl e \<Rightarrow> Inl e
           | Inr vs \<Rightarrow>
               (case copy_streams cv s written nb m (Suc osi) (Suc c) of
                  Inl e \<Rightarrow> Inl e
                | Inr rest \<Rightarrow>
                    Inr ((if d_sample_index s = 0
                          then Some (written osi, d_items_in_buffer s) else None, vs) # rest))))"

subsection \<open>work\<close>

text \<open>
  What a call of \<^verbatim>\<open>work\<close> has done when it gives up the lock: returned \<open>-1\<close>
  (\<open>Done\<close>), returned \<open>nb_samples\<close> with the regions filled (\<open>Produced\<close>), thrown
  (\<open>Raised\<close>), or entered \<^verbatim>\<open>wait_for\<close> (\<open>Waiting\<close>: the call has not returned).
\<close>

datatype 'o outcome =
    Done
  | Produced nat "'o region list"
  | Raised error
  | Waiting

definition return_value :: "'o outcome \<Rightarrow> int option" where
  "return_value r =
     (case r of Done \<Rightarrow> Some (- 1) | Produced nb _ \<Rightarrow> Some (to_int nb) | _ \<Rightarrow> None)"

text \<open>Lines 214 to 250; \<open>k\<close> is \<^verbatim>\<open>output_items.size()\<close>.\<close>

definition work_copy ::
  "('r, 'o) conversions \<Rightarrow> (nat \<Rightarrow> nat) \<Rightarrow> nat \<Rightarrow> int \<Rightarrow> 'r inst \<Rightarrow> 'o outcome \<times> 'r inst" where
  "work_copy cv written k noutput_items s =
     (let nb_samples = min (d_items_in_buffer s) (to_ulong noutput_items)
      in case copy_streams cv s written nb_samples k 0 0 of
           Inl e \<Rightarrow> (Raised e, s)
         | Inr regions \<Rightarrow>
             (Produced nb_samples regions,
              s\<lparr>d_items_in_buffer := d_items_in_buffer s - nb_samples,
                d_sample_index := d_sample_index s + nb_samples\<rparr>))"

text \<open>Lines 192 to 201: from the entry to the first test of the wait loop.\<close>

definition work ::
  "('r, 'o) conversions \<Rightarrow> (nat \<Rightarrow> nat) \<Rightarrow> nat \<Rightarrow> int \<Rightarrow> 'r inst \<Rightarrow> 'o outcome \<times> 'r inst" where
  "work cv written k noutput_items s =
     (if d_thread_stopped s then (Done, s)
      else
        let s1 = (if d_items_in_buffer s = 0 then s\<lparr>d_empty_buffer := True\<rparr> else s)
        in if d_empty_buffer s1 then (Waiting, s1)
           else work_copy cv written k noutput_items s1)"

text \<open>
  Lines 203 to 212 and the next test of the loop, for a call that is inside
  \<^verbatim>\<open>wait_for\<close>. \<^verbatim>\<open>wait_for\<close> returns when its predicate \<^verbatim>\<open>!d_empty_buffer\<close> holds
  at a wake-up, or when the 100 ms have passed (\<open>timed_out\<close>), and its value
  \<^verbatim>\<open>buffer_refilled\<close> is that of the predicate. A wake-up before the timeout with the
  buffer still empty stays inside \<^verbatim>\<open>wait_for\<close>. The second component counts the
  \<^verbatim>\<open>"timeout"\<close> messages published.
\<close>

definition work_wake ::
  "('r, 'o) conversions \<Rightarrow> (nat \<Rightarrow> nat) \<Rightarrow> nat \<Rightarrow> int \<Rightarrow> bool \<Rightarrow> 'r inst \<Rightarrow> ('o outcome \<times> nat) \<times> 'r inst" where
  "work_wake cv written k noutput_items timed_out s =
     (if d_empty_buffer s \<and> \<not> timed_out then ((Waiting, 0), s)
      else
        let buffer_refilled = \<not> d_empty_buffer s
        in if d_thread_stopped s then ((Done, 0), s)
           else
             let published = (if \<not> buffer_refilled then 1 else 0)
             in if d_empty_buffer s then ((Waiting, published), s)
                else (case work_copy cv written k noutput_items s of
                        (r, s') \<Rightarrow> ((r, published), s')))"

subsection \<open>start, stop and the refill thread\<close>

text \<open>The writes of \<^verbatim>\<open>start\<close> and of \<^verbatim>\<open>stop\<close> to the members.\<close>

definition start :: "'r inst \<Rightarrow> 'r inst" where
  "start s = s\<lparr>d_items_in_buffer := 0, d_empty_buffer := True, d_thread_stopped := False\<rparr>"

definition stop :: "'r inst \<Rightarrow> 'r inst" where
  "stop s = s\<lparr>d_empty_buffer := True, d_thread_stopped := True\<rparr>"

text \<open>
  Where the thread of \<^verbatim>\<open>refill_buffer\<close> is, at the points where it does not hold the
  lock: not running (never spawned, or left the loop), spawned and not yet in the loop,
  inside \<^verbatim>\<open>d_cond_wait.wait\<close>, inside \<^verbatim>\<open>getSamplesRaw\<close>, or back from it and
  about to take the lock.
\<close>

datatype rpc = NoThread | Spawned | CondWait | Fetching | Fetched

text \<open>Lines 167 to 170, with the lock held: the test at the head of the loop and the
  entry to the wait.\<close>

definition loop_head :: "'r inst \<Rightarrow> rpc" where
  "loop_head s =
     (if d_thread_stopped s then NoThread
      else if d_empty_buffer s then Fetching
      else CondWait)"

text \<open>Lines 181 to 184 after a fetch that returned; \<^verbatim>\<open>d_samples[0]\<close> of an empty vector
  is the error.\<close>

definition install :: "'r inst \<Rightarrow> error + 'r inst" where
  "install s =
     (case d_samples s of
        [] \<Rightarrow> Inl SampleOutOfRange
      | ch0 # _ \<Rightarrow>
          Inr (s\<lparr>d_items_in_buffer := length ch0, d_sample_index := 0,
                 d_empty_buffer := False\<rparr>))"


subsection \<open>The block with its two threads and its scheduler\<close>

text \<open>
  The streaming thread is outside \<^verbatim>\<open>work\<close>, or inside the \<^verbatim>\<open>wait_for\<close> of a call
  \<^verbatim>\<open>work(noutput_items, ...)\<close>.
\<close>

datatype caller = Idle | InWork int

text \<open>
  The instance together with what its environment keeps: where the two threads are, the
  items the scheduler has taken from each output port, the \<^verbatim>\<open>buffer_start\<close> tags on
  each port as (offset, value), the number of \<^verbatim>\<open>"timeout"\<close> messages published,
  the values that the calls of \<^verbatim>\<open>work\<close> have returned, and the blocks that the refill
  thread has installed, both in order. The number of output ports
  (\<^verbatim>\<open>output_items.size()\<close>) is the length of \<open>ports\<close>.
\<close>

record ('r, 'o) sys =
  blk :: "'r inst"
  refill :: rpc
  caller :: caller
  ports :: "'o list list"
  port_tags :: "(nat \<times> nat) list list"
  timeouts :: nat
  results :: "int list"
  fetched :: "'r list list list"

definition nitems_written :: "('r, 'o) sys \<Rightarrow> nat \<Rightarrow> nat" where
  "nitems_written sy i = (if i < length (ports sy) then length (ports sy ! i) else 0)"

definition tag_list :: "(nat \<times> nat) option \<Rightarrow> (nat \<times> nat) list" where
  "tag_list t = (case t of None \<Rightarrow> [] | Some x \<Rightarrow> [x])"

text \<open>
  What the scheduler does with the outcome of a call: after \<open>Produced nb regions\<close> it
  takes the \<open>nb\<close> items of each region and keeps the tags; after \<open>Done\<close> it takes
  nothing; \<open>Waiting\<close> leaves the thread inside the call; an exception ends the run.
\<close>

definition deliver :: "'o region list \<Rightarrow> ('r, 'o) sys \<Rightarrow> ('r, 'o) sys" where
  "deliver regions sy =
     sy\<lparr>ports := map (\<lambda>(p, r). p @ snd r) (zip (ports sy) regions),
        port_tags := map (\<lambda>(ts, r). ts @ tag_list (fst r)) (zip (port_tags sy) regions)\<rparr>"

definition after_work ::
  "int \<Rightarrow> 'o outcome \<Rightarrow> 'r inst \<Rightarrow> ('r, 'o) sys \<Rightarrow> error + ('r, 'o) sys" where
  "after_work noutput_items r b sy =
     (case r of
        Done \<Rightarrow> Inr (sy\<lparr>blk := b, caller := Idle, results := results sy @ [- 1]\<rparr>)
      | Produced nb regions \<Rightarrow>
          Inr (deliver regions
                 (sy\<lparr>blk := b, caller := Idle, results := results sy @ [to_int nb]\<rparr>))
      | Raised e \<Rightarrow> Inl e
      | Waiting \<Rightarrow> Inr (sy\<lparr>blk := b, caller := InWork noutput_items\<rparr>))"

text \<open>
  The steps of the block, each one a stretch of code between two points where the lock is
  free:
  \<^item> \<open>CallStart\<close>, \<open>CallStop\<close>: the scheduler calls \<^verbatim>\<open>start\<close> or \<^verbatim>\<open>stop\<close>
    (the writes to the members; the device calls and the join are not modelled);
  \<^item> \<open>CallWork n\<close>: the scheduler calls \<^verbatim>\<open>work\<close> with \<^verbatim>\<open>noutput_items = n\<close>;
  \<^item> \<open>Wake timed_out\<close>: the streaming thread wakes up inside \<^verbatim>\<open>wait_for\<close>;
  \<^item> \<open>RefillSched\<close>: the refill thread enters its loop (lines 164 to 170), or its
    \<^verbatim>\<open>wait\<close> ends because \<^verbatim>\<open>d_empty_buffer\<close> is set;
  \<^item> \<open>FetchReturns b\<close>: \<^verbatim>\<open>getSamplesRaw\<close> returns \<open>b\<close>, assigned to \<^verbatim>\<open>d_samples\<close>
    (line 174, the lock is free);
  \<^item> \<open>FetchThrows\<close>: \<^verbatim>\<open>getSamplesRaw\<close> throws (lines 176 to 179);
  \<^item> \<open>RefillLock\<close>: the refill thread takes the lock again and runs lines 181 to 184 and
    the head of the loop.
  A step that the thread concerned cannot take where it is leaves the state as it is.
\<close>

datatype 'r event =
    CallStart
  | CallStop
  | CallWork int
  | Wake bool
  | RefillSched
  | FetchReturns "'r list list"
  | FetchThrows
  | RefillLock

fun step :: "('r, 'o) conversions \<Rightarrow> 'r event \<Rightarrow> ('r, 'o) sys \<Rightarrow> error + ('r, 'o) sys" where
  "step cv CallStart sy = Inr (sy\<lparr>blk := start (blk sy), refill := Spawned\<rparr>)"
| "step cv CallStop sy = Inr (sy\<lparr>blk := stop (blk sy)\<rparr>)"
| "step cv (CallWork n) sy =
     (case caller sy of
        Idle \<Rightarrow>
          (case work cv (nitems_written sy) (length (ports sy)) n (blk sy) of
             (r, b) \<Rightarrow> after_work n r b sy)
      | InWork _ \<Rightarrow> Inr sy)"
| "step cv (Wake timed_out) sy =
     (case caller sy of
        Idle \<Rightarrow> Inr sy
      | InWork n \<Rightarrow>
          (case work_wake cv (nitems_written sy) (length (ports sy)) n timed_out (blk sy) of
             ((r, published), b) \<Rightarrow>
               after_work n r b (sy\<lparr>timeouts := timeouts sy + published\<rparr>)))"
| "step cv RefillSched sy =
     (case refill sy of
        Spawned \<Rightarrow> Inr (sy\<lparr>refill := loop_head (blk sy)\<rparr>)
      | CondWait \<Rightarrow> Inr (if d_empty_buffer (blk sy) then sy\<lparr>refill := Fetching\<rparr> else sy)
      | _ \<Rightarrow> Inr sy)"
| "step cv (FetchReturns b) sy =
     (case refill sy of
        Fetching \<Rightarrow> Inr (sy\<lparr>blk := (blk sy)\<lparr>d_samples := b\<rparr>, refill := Fetched\<rparr>)
      | _ \<Rightarrow> Inr sy)"
| "step cv FetchThrows sy =
     (case refill sy of
        Fetching \<Rightarrow> Inr (sy\<lparr>blk := (blk sy)\<lparr>d_thread_stopped := True\<rparr>, refill := NoThread\<rparr>)
      | _ \<Rightarrow> Inr sy)"
| "step cv RefillLock sy =
     (case refill sy of
        Fetched \<Rightarrow>
          (case install (blk sy) of
             Inl e \<Rightarrow> Inl e
           | Inr b \<Rightarrow>
               Inr (sy\<lparr>blk := b, refill := loop_head b,
                       fetched := fetched sy @ [d_samples (blk sy)]\<rparr>))
      | _ \<Rightarrow> Inr sy)"

fun run :: "('r, 'o) conversions \<Rightarrow> 'r event list \<Rightarrow> ('r, 'o) sys \<Rightarrow> error + ('r, 'o) sys" where
  "run cv [] sy = Inr sy"
| "run cv (ev # evs) sy = (case step cv ev sy of Inl e \<Rightarrow> Inl e | Inr sy' \<Rightarrow> run cv evs sy')"

text \<open>The block after \<^verbatim>\<open>start\<close>, with \<open>k\<close> output ports and nothing delivered yet.\<close>

definition started :: "'r inst \<Rightarrow> nat \<Rightarrow> ('r, 'o) sys" where
  "started b k =
     \<lparr>blk = start b, refill = Spawned, caller = Idle, ports = replicate k [],
      port_tags = replicate k [], timeouts = 0, results = [], fetched = []\<rparr>"

subsection \<open>The notions of the specification\<close>

text \<open>The physical channels whose flag is set, in channel order, from index \<open>ci\<close> on.\<close>

definition active_from :: "int list \<Rightarrow> nat \<Rightarrow> nat list" where
  "active_from chans ci = filter (\<lambda>i. chans ! i \<noteq> 0) [ci..<length chans]"

definition active_channels :: "int list \<Rightarrow> nat list" where
  "active_channels chans = active_from chans 0"

definition count_active :: "int list \<Rightarrow> nat" where
  "count_active chans = length (filter (\<lambda>c. c \<noteq> 0) chans)"

text \<open>The tag that \<^verbatim>\<open>work\<close> adds to output \<open>osi\<close>, if any.\<close>

definition region_tag :: "'r inst \<Rightarrow> (nat \<Rightarrow> nat) \<Rightarrow> nat \<Rightarrow> (nat \<times> nat) option" where
  "region_tag s written osi =
     (if d_sample_index s = 0 then Some (written osi, d_items_in_buffer s) else None)"

text \<open>The items of channel \<open>c\<close> in a list of fetched blocks, converted, in fetch order.\<close>

definition converted :: "('r, 'o) conversions \<Rightarrow> bool \<Rightarrow> nat \<Rightarrow> 'r list \<Rightarrow> 'o list" where
  "converted cv volts c xs = map (\<lambda>x. the (convert cv volts c x)) xs"

definition stream_of :: "('r, 'o) conversions \<Rightarrow> bool \<Rightarrow> nat \<Rightarrow> 'r list list list \<Rightarrow> 'o list" where
  "stream_of cv volts c blocks = concat (map (\<lambda>b. converted cv volts c (b ! c)) blocks)"

text \<open>The number of items of a block: the size of its first sequence, as line 181 takes
  it.\<close>

definition block_items :: "'r list list \<Rightarrow> nat" where
  "block_items b = (case b of [] \<Rightarrow> 0 | ch0 # _ \<Rightarrow> length ch0)"

text \<open>
  A fetched block is well formed for the channels \<open>sel\<close> that are read: it has a sequence
  for each of them, all of the size of the first one, and every sample converts.
\<close>

definition wf_block :: "('r, 'o) conversions \<Rightarrow> bool \<Rightarrow> nat list \<Rightarrow> 'r list list \<Rightarrow> bool" where
  "wf_block cv volts sel b =
     (b \<noteq> [] \<and>
      (\<forall>c \<in> set sel. c < length b \<and> length (b ! c) = block_items b \<and>
                      (\<forall>x \<in> set (b ! c). convert cv volts c x \<noteq> None)))"

text \<open>
  The events of a run between one \<^verbatim>\<open>start\<close> and the next \<^verbatim>\<open>stop\<close>: neither of the
  two occurs, and every block that \<^verbatim>\<open>getSamplesRaw\<close> returns is well formed.
\<close>

fun wf_event :: "('r, 'o) conversions \<Rightarrow> bool \<Rightarrow> nat list \<Rightarrow> 'r event \<Rightarrow> bool" where
  "wf_event cv volts sel (FetchReturns b) = wf_block cv volts sel b"
| "wf_event cv volts sel CallStart = False"
| "wf_event cv volts sel CallStop = False"
| "wf_event cv volts sel _ = True"

text \<open>The tags expected on a port: one per block, at the offset of its first item, with
  its number of items.\<close>

fun marks :: "nat \<Rightarrow> nat list \<Rightarrow> (nat \<times> nat) list" where
  "marks off [] = []"
| "marks off (l # ls) = (off, l) # marks (off + l) ls"

text \<open>The samples that a call reads from channel \<open>c\<close> are there and convert.\<close>

definition readable :: "('r, 'o) conversions \<Rightarrow> 'r inst \<Rightarrow> nat \<Rightarrow> nat \<Rightarrow> bool" where
  "readable cv s nb c =
     (c < length (d_samples s) \<and> d_sample_index s + nb \<le> length (d_samples s ! c) \<and>
      (\<forall>x \<in> set (take nb (drop (d_sample_index s) (d_samples s ! c))).
          convert cv (d_stream_voltage_values s) c x \<noteq> None))"

definition region_items :: "('r, 'o) conversions \<Rightarrow> 'r inst \<Rightarrow> nat \<Rightarrow> nat \<Rightarrow> 'o list" where
  "region_items cv s nb c =
     converted cv (d_stream_voltage_values s) c (take nb (drop (d_sample_index s) (d_samples s ! c)))"

text \<open>
  The relation between the read cursor and the remaining count: they add up to the number
  of items of the block installed last, and to zero when none has been installed.
\<close>

definition installed_items :: "'r list list list \<Rightarrow> nat" where
  "installed_items blocks = (case blocks of [] \<Rightarrow> 0 | _ \<Rightarrow> block_items (last blocks))"

definition cursor_inv :: "('r, 'o) sys \<Rightarrow> bool" where
  "cursor_inv sy =
     (d_sample_index (blk sy) + d_items_in_buffer (blk sy) = installed_items (fetched sy))"

text \<open>What port \<open>i\<close> (channel \<open>c\<close>) holds when the blocks of \<open>log\<close> have been installed
  and the cursor in the last of them is at \<open>idx\<close>.\<close>

definition consumed ::
  "('r, 'o) conversions \<Rightarrow> bool \<Rightarrow> nat \<Rightarrow> 'r list list list \<Rightarrow> nat \<Rightarrow> 'o list" where
  "consumed cv volts c log idx =
     stream_of cv volts c (butlast log) @ converted cv volts c (take idx (last log ! c))"

text \<open>
  The state of a run without \<^verbatim>\<open>stop\<close> and \<^verbatim>\<open>start\<close>, for the flags \<open>chans\<close>, the
  output mode \<open>volts\<close> and the channels \<open>sel\<close> that feed the ports: the installed blocks
  are well formed; the refill thread is in or after \<^verbatim>\<open>getSamplesRaw\<close> only while
  \<^verbatim>\<open>d_empty_buffer\<close> is set; with the flag set nothing remains and every port holds all
  installed items of its channel; with the flag clear \<^verbatim>\<open>d_samples\<close> is the block
  installed last and every port holds the items before its cursor.
\<close>

definition stream_inv ::
  "('r, 'o) conversions \<Rightarrow> bool \<Rightarrow> int list \<Rightarrow> nat list \<Rightarrow> ('r, 'o) sys \<Rightarrow> bool" where
  "stream_inv cv volts chans sel sy =
     (d_stream_voltage_values (blk sy) = volts \<and> d_channels (blk sy) = chans \<and>
      length (ports sy) = length sel \<and>
      length sel \<le> count_active chans \<and>
      sel = take (length sel) (active_channels chans) \<and>
      list_all (wf_block cv volts sel) (fetched sy) \<and>
      (refill sy = Fetched \<longrightarrow> wf_block cv volts sel (d_samples (blk sy))) \<and>
      (refill sy = Fetching \<or> refill sy = Fetched \<longrightarrow> d_empty_buffer (blk sy)) \<and>
      (d_empty_buffer (blk sy) \<longrightarrow>
         d_items_in_buffer (blk sy) = 0 \<and>
         (\<forall>i < length sel. ports sy ! i = stream_of cv volts (sel ! i) (fetched sy))) \<and>
      (\<not> d_empty_buffer (blk sy) \<longrightarrow>
         fetched sy \<noteq> [] \<and> d_samples (blk sy) = last (fetched sy) \<and>
         d_sample_index (blk sy) + d_items_in_buffer (blk sy) = block_items (last (fetched sy)) \<and>
         (\<forall>i < length sel.
             ports sy ! i = consumed cv volts (sel ! i) (fetched sy) (d_sample_index (blk sy)))))"

text \<open>The installed blocks from which a call has copied already.\<close>

definition begun :: "('r, 'o) sys \<Rightarrow> 'r list list list" where
  "begun sy =
     (if \<not> d_empty_buffer (blk sy) \<and> d_sample_index (blk sy) = 0 then butlast (fetched sy)
      else fetched sy)"

text \<open>The requests are positive values of an \<^verbatim>\<open>int\<close>, and the fetched blocks are not
  empty.\<close>

fun tag_event :: "'r event \<Rightarrow> bool" where
  "tag_event (FetchReturns b) = (0 < block_items b)"
| "tag_event (CallWork n) = (0 < n \<and> n < 2 ^ 31)"
| "tag_event _ = True"

text \<open>The tags of a run: every port carries the marks of the blocks begun so far.\<close>

definition tag_inv :: "nat \<Rightarrow> ('r, 'o) sys \<Rightarrow> bool" where
  "tag_inv k sy =
     (length (port_tags sy) = k \<and>
      list_all (\<lambda>b. 0 < block_items b) (fetched sy) \<and>
      (refill sy = Fetched \<longrightarrow> 0 < block_items (d_samples (blk sy))) \<and>
      (\<forall>n. caller sy = InWork n \<longrightarrow> 0 < n \<and> n < 2 ^ 31) \<and>
      (\<forall>i < k. port_tags sy ! i = marks 0 (map block_items (begun sy))))"

subsection \<open>A concrete instance\<close>

text \<open>
  Samples and items are integers here: the conversion to volts multiplies by ten, the
  cast to \<^verbatim>\<open>short\<close> fails outside the range of 16 bits. Channel 0 is off and channel 1
  is on.
\<close>

definition demo_cv :: "(int, int) conversions" where
  "demo_cv =
     \<lparr>raw_to_volts = (\<lambda>c x. Some (10 * x)),
      raw_to_short = (\<lambda>x. if - 32768 \<le> x \<and> x < 32768 then Some x else None)\<rparr>"

definition demo_inst :: "int inst" where
  "demo_inst =
     \<lparr>d_uri = ''usb:'', d_buffer_size = 4, d_channels = [0, 1],
      d_stream_voltage_values = False, d_samples = [[], []], d_items_in_buffer = 0,
      d_sample_index = 0, d_empty_buffer = False, d_thread_stopped = False\<rparr>"

definition demo_block :: "int list list" where
  "demo_block = [[1, 2, 3, 4], [5, 6, 7, 8]]"

text \<open>The instance with \<open>demo_block\<close> installed and nothing read yet.\<close>

definition demo_filled :: "int inst" where
  "demo_filled =
     demo_inst\<lparr>d_samples := demo_block, d_items_in_buffer := 4, d_sample_index := 0,
               d_empty_buffer := False, d_thread_stopped := False\<rparr>"

text \<open>The block after \<^verbatim>\<open>start\<close> with one output port, with the refill thread inside
  \<^verbatim>\<open>getSamplesRaw\<close>, and with \<open>demo_block\<close> installed.\<close>

definition demo_started :: "(int, int) sys" where
  "demo_started = started demo_inst 1"

definition demo_fetching :: "(int, int) sys" where
  "demo_fetching = demo_started\<lparr>refill := Fetching\<rparr>"

definition demo_installed :: "(int, int) sys" where
  "demo_installed =
     demo_started\<lparr>blk := demo_filled, refill := CondWait, fetched := [demo_block]\<rparr>"

text \<open>A run that reads two blocks.\<close>

definition demo_run :: "int event list" where
  "demo_run =
     [RefillSched, FetchReturns demo_block, RefillLock, CallWork 3, CallWork 3, CallWork 3,
      RefillSched, FetchReturns demo_block, RefillLock, Wake False, CallWork 1]"

text \<open>A device that opens at one locator only, and registries without and with it.\<close>

definition demo_open :: "string \<Rightarrow> nat option" where
  "demo_open u = (if u = ''usb:'' then Some 7 else None)"

definition demo_uri :: "nat \<Rightarrow> string" where
  "demo_uri c = ''usb:''"

definition demo_reg :: "nat registry" where
  "demo_reg = \<lparr>s_contexts = Map.empty, closed_log = []\<rparr>"

definition demo_reg_open :: "nat registry" where
  "demo_reg_open = \<lparr>s_contexts = [''usb:'' \<mapsto> 7], closed_log = []\<rparr>"

section \<open>Properties of the copy loops\<close>

lemma active_from_end: "length chans \<le> ci \<Longrightarrow> active_from chans ci = []"
  by (simp add: active_from_def)

lemma active_from_step:
  "ci < length chans \<Longrightarrow>
   active_from chans ci = (if chans ! ci = 0 then active_from chans (Suc ci) else ci # active_from chans (Suc ci))"
  by (simp add: active_from_def upt_conv_Cons)

lemma skip_inactive_eq:
  "skip_inactive chans ci =
     (case active_from chans ci of [] \<Rightarrow> Inl ChannelOutOfRange | c # _ \<Rightarrow> Inr c)"
proof (induction chans ci rule: skip_inactive.induct)
  case (1 chans ci)
  show ?case
  proof (cases "length chans \<le> ci")
    case True
    then show ?thesis by (simp add: skip_inactive.simps [of chans ci] active_from_end)
  next
    case False
    then have lt: "ci < length chans" by simp
    show ?thesis
    proof (cases "chans ! ci = 0")
      case True
      with False "1.IH" lt show ?thesis
        by (simp add: skip_inactive.simps [of chans ci] active_from_step)
    next
      case nz: False
      with False lt show ?thesis
        by (simp add: skip_inactive.simps [of chans ci] active_from_step)
    qed
  qed
qed

lemma active_from_Cons:
  "active_from chans ci = c # rest \<Longrightarrow> rest = active_from chans (Suc c)"
proof (induction chans ci rule: skip_inactive.induct)
  case (1 chans ci)
  show ?case
  proof (cases "length chans \<le> ci")
    case True
    with "1.prems" show ?thesis by (simp add: active_from_end)
  next
    case False
    then have lt: "ci < length chans" by simp
    show ?thesis
    proof (cases "chans ! ci = 0")
      case True
      with False "1.IH" "1.prems" lt show ?thesis
        by (simp add: active_from_step)
    next
      case nz: False
      with "1.prems" lt show ?thesis
        by (auto simp add: active_from_step)
    qed
  qed
qed

lemma count_active_from: "length (active_from chans 0) = length (filter (\<lambda>c. c \<noteq> 0) chans)"
proof -
  have "filter (\<lambda>c. c \<noteq> 0) (map ((!) chans) [0..<length chans])
        = map ((!) chans) (active_from chans 0)"
    by (simp add: active_from_def filter_map comp_def)
  then show ?thesis by (simp add: map_nth)
qed

lemma copy_samples_length: "copy_samples cv s c m si = Inr vs \<Longrightarrow> length vs = m"
  by (induction m arbitrary: si vs) (auto split: sum.splits option.splits)

lemma copy_samples_ok:
  "c < length (d_samples s) \<Longrightarrow> si + d_sample_index s + m \<le> length (d_samples s ! c) \<Longrightarrow>
   \<forall>x \<in> set (take m (drop (si + d_sample_index s) (d_samples s ! c))). convert cv (d_stream_voltage_values s) c x \<noteq> None \<Longrightarrow>
   copy_samples cv s c m si =
     Inr (map (\<lambda>x. the (convert cv (d_stream_voltage_values s) c x)) (take m (drop (si + d_sample_index s) (d_samples s ! c))))"
proof (induction m arbitrary: si)
  case 0
  then show ?case by simp
next
  case (Suc m)
  let ?row = "d_samples s ! c"
  let ?j = "si + d_sample_index s"
  from Suc.prems have j: "?j < length ?row" by simp
  then have dr: "drop ?j ?row = ?row ! ?j # drop (Suc ?j) ?row"
    by (simp add: Cons_nth_drop_Suc)
  from Suc.prems dr have cx: "convert cv (d_stream_voltage_values s) c (?row ! ?j) \<noteq> None" by simp
  from Suc.prems dr have rest: "\<forall>x \<in> set (take m (drop (Suc si + d_sample_index s) ?row)). convert cv (d_stream_voltage_values s) c x \<noteq> None"
    by simp
  from Suc.prems have bnd: "Suc si + d_sample_index s + m \<le> length ?row" by simp
  have ih: "copy_samples cv s c m (Suc si) =
     Inr (map (\<lambda>x. the (convert cv (d_stream_voltage_values s) c x)) (take m (drop (Suc si + d_sample_index s) ?row)))"
    using Suc.IH [OF Suc.prems(1) bnd rest] .
  from cx obtain v where v: "convert cv (d_stream_voltage_values s) c (?row ! ?j) = Some v" by auto
  show ?case
    using Suc.prems(1) j v ih dr by (simp add: sample_at_def)
qed


lemma copy_samples_error:
  "copy_samples cv s c m si = Inl e \<Longrightarrow> e = SampleOutOfRange \<or> e = BadCast"
  by (induction m arbitrary: si)
     (auto simp: sample_at_def split: sum.splits option.splits if_splits)

lemma copy_streams_ok:
  "m \<le> length (active_from (d_channels s) ci) \<Longrightarrow>
   \<forall>c \<in> set (take m (active_from (d_channels s) ci)). copy_samples cv s c nb 0 = Inr (f c) \<Longrightarrow>
   copy_streams cv s written nb m osi ci =
     Inr (map (\<lambda>(j, c). (region_tag s written j, f c))
              (zip [osi..<osi + m] (take m (active_from (d_channels s) ci))))"
proof (induction m arbitrary: osi ci)
  case 0
  then show ?case by simp
next
  case (Suc m)
  from Suc.prems(1) obtain c rest where cr: "active_from (d_channels s) ci = c # rest"
    by (cases "active_from (d_channels s) ci") auto
  then have rest: "rest = active_from (d_channels s) (Suc c)"
    by (rule active_from_Cons)
  have sk: "skip_inactive (d_channels s) ci = Inr c"
    by (simp add: skip_inactive_eq cr)
  from Suc.prems(2) cr have fc: "copy_samples cv s c nb 0 = Inr (f c)" by simp
  from Suc.prems(1) cr rest have len: "m \<le> length (active_from (d_channels s) (Suc c))" by simp
  from Suc.prems(2) cr rest
  have all: "\<forall>c' \<in> set (take m (active_from (d_channels s) (Suc c))). copy_samples cv s c' nb 0 = Inr (f c')"
    by simp
  have up: "[osi..<Suc (osi + m)] = osi # [Suc osi..<Suc (osi + m)]"
    by (simp add: upt_conv_Cons del: upt_Suc)
  show ?case
    using Suc.IH [OF len all, of "Suc osi"] sk fc cr rest
    by (simp add: up region_tag_def del: upt_Suc)
qed

lemma copy_streams_channel_error:
  "copy_streams cv s written nb m osi ci = Inl ChannelOutOfRange \<Longrightarrow>
   length (active_from (d_channels s) ci) < m"
proof (induction m arbitrary: osi ci)
  case 0
  then show ?case by simp
next
  case (Suc m)
  show ?case
  proof (cases "active_from (d_channels s) ci")
    case Nil
    then show ?thesis by simp
  next
    case (Cons c rest)
    then have rest: "rest = active_from (d_channels s) (Suc c)"
      by (rule active_from_Cons)
    have sk: "skip_inactive (d_channels s) ci = Inr c"
      by (simp add: skip_inactive_eq Cons)
    from Suc.prems sk have "copy_streams cv s written nb m (Suc osi) (Suc c) = Inl ChannelOutOfRange"
      by (auto split: sum.splits dest: copy_samples_error)
    then have "length (active_from (d_channels s) (Suc c)) < m" by (rule Suc.IH)
    with Cons rest show ?thesis by simp
  qed
qed

lemma copy_streams_short:
  "length (active_from (d_channels s) ci) < m \<Longrightarrow>
   \<forall>c \<in> set (active_from (d_channels s) ci). \<exists>vs. copy_samples cv s c nb 0 = Inr vs \<Longrightarrow>
   copy_streams cv s written nb m osi ci = Inl ChannelOutOfRange"
proof (induction m arbitrary: osi ci)
  case 0
  then show ?case by simp
next
  case (Suc m)
  show ?case
  proof (cases "active_from (d_channels s) ci")
    case Nil
    then show ?thesis by (simp add: skip_inactive_eq)
  next
    case (Cons c rest)
    then have rest: "rest = active_from (d_channels s) (Suc c)"
      by (rule active_from_Cons)
    have sk: "skip_inactive (d_channels s) ci = Inr c"
      by (simp add: skip_inactive_eq Cons)
    from Suc.prems(2) Cons obtain vs where vs: "copy_samples cv s c nb 0 = Inr vs" by auto
    from Suc.prems(1) Cons rest have len: "length (active_from (d_channels s) (Suc c)) < m" by simp
    from Suc.prems(2) Cons rest
    have all: "\<forall>c' \<in> set (active_from (d_channels s) (Suc c)). \<exists>vs. copy_samples cv s c' nb 0 = Inr vs"
      by simp
    show ?thesis using Suc.IH [OF len all, of "Suc osi"] sk vs by simp
  qed
qed

lemma copy_streams_length:
  "copy_streams cv s written nb m osi ci = Inr regs \<Longrightarrow> length regs = m"
  by (induction m arbitrary: osi ci regs) (auto split: sum.splits)


lemma count_active_eq: "count_active chans = length (active_channels chans)"
  by (simp add: count_active_def active_channels_def count_active_from)

lemma zip_upt_take:
  "k \<le> length xs \<Longrightarrow>
   map (\<lambda>(j, c). g j c) (zip [0..<k] (take k xs)) = map (\<lambda>i. g i (xs ! i)) [0..<k]"
  by (rule nth_equalityI) simp_all

lemma copy_streams_regions:
  assumes "k \<le> count_active (d_channels s)"
    and "\<forall>c \<in> set (take k (active_channels (d_channels s))). copy_samples cv s c nb 0 = Inr (f c)"
  shows "copy_streams cv s written nb k 0 0 =
           Inr (map (\<lambda>i. (region_tag s written i, f (active_channels (d_channels s) ! i))) [0..<k])"
proof -
  from assms(1) have len: "k \<le> length (active_from (d_channels s) 0)"
    by (simp add: count_active_eq active_channels_def)
  from assms(2) have all: "\<forall>c \<in> set (take k (active_from (d_channels s) 0)). copy_samples cv s c nb 0 = Inr (f c)"
    by (simp add: active_channels_def)
  show ?thesis
    using copy_streams_ok [OF len all, of written 0] len
    by (simp add: zip_upt_take active_channels_def)
qed

lemma copy_samples_readable:
  "readable cv s nb c \<Longrightarrow> copy_samples cv s c nb 0 = Inr (region_items cv s nb c)"
  using copy_samples_ok [of c s 0 nb cv]
  by (simp add: readable_def region_items_def converted_def)

lemma work_copy_readable:
  assumes "k \<le> count_active (d_channels s)"
    and "nb = min (d_items_in_buffer s) (to_ulong n)"
    and "\<forall>c \<in> set (take k (active_channels (d_channels s))). readable cv s nb c"
  shows "work_copy cv written k n s =
           (Produced nb (map (\<lambda>i. (region_tag s written i,
                                   region_items cv s nb (active_channels (d_channels s) ! i))) [0..<k]),
            s\<lparr>d_items_in_buffer := d_items_in_buffer s - nb,
              d_sample_index := d_sample_index s + nb\<rparr>)"
proof -
  from assms(3)
  have "\<forall>c \<in> set (take k (active_channels (d_channels s))).
          copy_samples cv s c nb 0 = Inr (region_items cv s nb c)"
    by (simp add: copy_samples_readable)
  from copy_streams_regions [OF assms(1) this, of written] assms(2)
  show ?thesis by (simp add: work_copy_def Let_def)
qed

lemma to_ulong_nat: "0 \<le> n \<Longrightarrow> n < 2 ^ 31 \<Longrightarrow> to_ulong n = nat n"
  by (simp add: to_ulong_def)

lemma to_int_nat: "0 \<le> n \<Longrightarrow> n < 2 ^ 31 \<Longrightarrow> to_int (nat n) = n"
  by (simp add: to_int_def)

lemma region_items_length: "readable cv s nb c \<Longrightarrow> length (region_items cv s nb c) = nb"
  by (auto simp: readable_def region_items_def converted_def)

section \<open>Properties of the steps\<close>

lemma stopped_step:
  assumes "d_thread_stopped (blk sy)" "refill sy = NoThread" "ev \<noteq> CallStart"
  shows "\<exists>sy'. step cv ev sy = Inr sy' \<and> d_thread_stopped (blk sy') \<and> refill sy' = NoThread \<and>
           fetched sy' = fetched sy \<and> d_samples (blk sy') = d_samples (blk sy) \<and>
           ports sy' = ports sy \<and> port_tags sy' = port_tags sy"
proof (cases ev)
  case (CallWork n)
  with assms show ?thesis
    by (cases "caller sy") (simp_all add: work_def after_work_def)
next
  case (Wake t)
  with assms show ?thesis
    by (cases "caller sy") (simp_all add: work_wake_def after_work_def)
qed (use assms in \<open>simp_all add: stop_def\<close>)

lemma stopped_run:
  "d_thread_stopped (blk sy) \<Longrightarrow> refill sy = NoThread \<Longrightarrow> CallStart \<notin> set evs \<Longrightarrow>
   \<exists>sy'. run cv evs sy = Inr sy' \<and> d_thread_stopped (blk sy') \<and> refill sy' = NoThread \<and>
         fetched sy' = fetched sy \<and> d_samples (blk sy') = d_samples (blk sy) \<and>
         ports sy' = ports sy \<and> port_tags sy' = port_tags sy"
proof (induction evs arbitrary: sy)
  case Nil
  then show ?case by simp
next
  case (Cons ev evs)
  from Cons.prems have "ev \<noteq> CallStart" by auto
  from stopped_step [OF Cons.prems(1,2) this, of cv]
  obtain sy1 where s1: "step cv ev sy = Inr sy1" "d_thread_stopped (blk sy1)" "refill sy1 = NoThread"
    "fetched sy1 = fetched sy" "d_samples (blk sy1) = d_samples (blk sy)"
    "ports sy1 = ports sy" "port_tags sy1 = port_tags sy"
    by blast
  from Cons.prems have "CallStart \<notin> set evs" by simp
  from Cons.IH [OF s1(2,3) this] s1 show ?case by auto
qed

lemma timeouts_while_empty:
  "caller sy = InWork n \<Longrightarrow> d_empty_buffer (blk sy) \<Longrightarrow> \<not> d_thread_stopped (blk sy) \<Longrightarrow>
   run cv (replicate j (Wake True)) sy = Inr (sy\<lparr>timeouts := timeouts sy + j\<rparr>)"
proof (induction j arbitrary: sy)
  case 0
  then show ?case by simp
next
  case (Suc j)
  let ?sy1 = "sy\<lparr>timeouts := timeouts sy + 1\<rparr>"
  from Suc.prems have st: "step cv (Wake True) sy = Inr ?sy1"
    by (simp add: work_wake_def after_work_def)
  from Suc.prems have "run cv (replicate j (Wake True)) ?sy1 = Inr (?sy1\<lparr>timeouts := timeouts ?sy1 + j\<rparr>)"
    by (intro Suc.IH) simp_all
  with st show ?case by simp
qed

lemma run_append:
  "run cv (evs @ evs') sy = (case run cv evs sy of Inl e \<Rightarrow> Inl e | Inr sy' \<Rightarrow> run cv evs' sy')"
  by (induction evs arbitrary: sy) (auto split: sum.splits)

lemma work_copy_sum:
  "work_copy cv written k n s = (r, s') \<Longrightarrow>
   d_sample_index s' + d_items_in_buffer s' = d_sample_index s + d_items_in_buffer s"
  by (auto simp: work_copy_def Let_def split: sum.splits)

lemma work_sum:
  "work cv written k n s = (r, s') \<Longrightarrow>
   d_sample_index s' + d_items_in_buffer s' = d_sample_index s + d_items_in_buffer s"
  by (auto simp: work_def Let_def dest: work_copy_sum split: if_splits)

lemma work_wake_sum:
  "work_wake cv written k n t s = ((r, p), s') \<Longrightarrow>
   d_sample_index s' + d_items_in_buffer s' = d_sample_index s + d_items_in_buffer s"
  by (auto simp: work_wake_def Let_def dest: work_copy_sum split: if_splits prod.splits)

lemma after_work_cursor:
  "after_work n r b sy = Inr sy' \<Longrightarrow>
   d_sample_index (blk sy') + d_items_in_buffer (blk sy') = d_sample_index b + d_items_in_buffer b \<and>
   fetched sy' = fetched sy"
  by (cases r) (auto simp: after_work_def deliver_def)

lemma install_cursor:
  "install s = Inr s' \<Longrightarrow>
   d_sample_index s' + d_items_in_buffer s' = block_items (d_samples s)"
  by (auto simp: install_def block_items_def split: list.splits)

lemma installed_items_snoc: "installed_items (blocks @ [b]) = block_items b"
  by (cases blocks) (simp_all add: installed_items_def)

section \<open>The stream of a run\<close>

lemma converted_length [simp]: "length (converted cv volts c xs) = length xs"
  by (simp add: converted_def)

lemma converted_append: "converted cv volts c (xs @ ys) = converted cv volts c xs @ converted cv volts c ys"
  by (simp add: converted_def)

lemma converted_Nil [simp]: "converted cv volts c [] = []"
  by (simp add: converted_def)

lemma stream_of_Nil [simp]: "stream_of cv volts c [] = []"
  by (simp add: stream_of_def)

lemma stream_of_snoc:
  "stream_of cv volts c (log @ [b]) = stream_of cv volts c log @ converted cv volts c (b ! c)"
  by (simp add: stream_of_def)

lemma consumed_snoc_0: "consumed cv volts c (log @ [b]) 0 = stream_of cv volts c log"
  by (simp add: consumed_def)

lemma consumed_all:
  "log \<noteq> [] \<Longrightarrow> length (last log ! c) \<le> idx \<Longrightarrow>
   consumed cv volts c log idx = stream_of cv volts c log"
proof -
  assume ne: "log \<noteq> []" and le: "length (last log ! c) \<le> idx"
  from ne have "log = butlast log @ [last log]" by simp
  then have "stream_of cv volts c log =
        stream_of cv volts c (butlast log) @ converted cv volts c (last log ! c)"
    by (metis stream_of_snoc)
  with le show ?thesis by (simp add: consumed_def)
qed

lemma consumed_advance:
  "consumed cv volts c log idx @ converted cv volts c (take nb (drop idx (last log ! c)))
   = consumed cv volts c log (idx + nb)"
  by (simp add: consumed_def converted_append [symmetric] take_add)

lemma stream_inv_fields:
  "stream_inv cv volts chans sel sy \<Longrightarrow> blk sy' = blk sy \<Longrightarrow> refill sy' = refill sy \<Longrightarrow>
   ports sy' = ports sy \<Longrightarrow> fetched sy' = fetched sy \<Longrightarrow> stream_inv cv volts chans sel sy'"
  by (simp add: stream_inv_def)

lemma wf_block_readable:
  assumes wf: "wf_block cv (d_stream_voltage_values s) sel (d_samples s)"
    and c: "c \<in> set sel"
    and le: "d_sample_index s + nb \<le> block_items (d_samples s)"
  shows "readable cv s nb c"
proof -
  from wf c have a: "c < length (d_samples s)" "length (d_samples s ! c) = block_items (d_samples s)"
    and b: "\<forall>x \<in> set (d_samples s ! c). convert cv (d_stream_voltage_values s) c x \<noteq> None"
    by (auto simp: wf_block_def)
  have "set (take nb (drop (d_sample_index s) (d_samples s ! c))) \<subseteq> set (d_samples s ! c)"
    by (meson set_take_subset set_drop_subset subset_trans)
  with a b le show ?thesis by (auto simp: readable_def)
qed


lemma stream_inv_count:
  "stream_inv cv volts chans sel sy \<Longrightarrow> length sel \<le> count_active chans"
  by (simp add: stream_inv_def)

lemma deliver_fields [simp]:
  "blk (deliver regs sy) = blk sy" "refill (deliver regs sy) = refill sy"
  "fetched (deliver regs sy) = fetched sy" "caller (deliver regs sy) = caller sy"
  "timeouts (deliver regs sy) = timeouts sy" "results (deliver regs sy) = results sy"
  by (simp_all add: deliver_def)

lemma deliver_ports:
  "length regs = length (ports sy) \<Longrightarrow> i < length (ports sy) \<Longrightarrow>
   ports (deliver regs sy) ! i = ports sy ! i @ snd (regs ! i)"
  by (simp add: deliver_def)

lemma deliver_ports_length:
  "length regs = length (ports sy) \<Longrightarrow> length (ports (deliver regs sy)) = length (ports sy)"
  by (simp add: deliver_def)

lemma copy_keeps_stream_inv:
  assumes inv: "stream_inv cv volts chans sel sy" and ne: "\<not> d_empty_buffer (blk sy)"
    and agree: "blk sy0 = blk sy" "refill sy0 = refill sy" "ports sy0 = ports sy"
      "fetched sy0 = fetched sy"
  shows "\<exists>sy'. (case work_copy cv written (length (ports sy)) n (blk sy) of
                 (r, b) \<Rightarrow> after_work n r b sy0) = Inr sy' \<and>
               stream_inv cv volts chans sel sy'"
proof -
  let ?s = "blk sy"
  let ?k = "length sel"
  let ?log = "fetched sy"
  let ?nb = "min (d_items_in_buffer ?s) (to_ulong n)"
  let ?act = "active_channels (d_channels ?s)"
  from inv have volts: "d_stream_voltage_values ?s = volts" and chans: "d_channels ?s = chans"
    and len: "length (ports sy) = ?k" and sel: "sel = take ?k (active_channels chans)"
    and wfl: "list_all (wf_block cv volts sel) ?log"
    and rf: "refill sy = Fetching \<or> refill sy = Fetched \<longrightarrow> d_empty_buffer ?s"
    by (simp_all add: stream_inv_def)
  from inv ne have log: "?log \<noteq> []" and smp: "d_samples ?s = last ?log"
    and sum: "d_sample_index ?s + d_items_in_buffer ?s = block_items (last ?log)"
    and prt: "\<forall>i < ?k. ports sy ! i = consumed cv volts (sel ! i) ?log (d_sample_index ?s)"
    by (simp_all add: stream_inv_def)
  from stream_inv_count [OF inv] chans have kle: "?k \<le> count_active (d_channels ?s)" by simp
  from log wfl have wflast: "wf_block cv volts sel (last ?log)"
    by (simp add: list_all_iff)
  have rd: "\<forall>c \<in> set (take ?k ?act). readable cv ?s ?nb c"
  proof
    fix c assume "c \<in> set (take ?k ?act)"
    with sel chans have c: "c \<in> set sel" by simp
    from wflast smp volts have "wf_block cv (d_stream_voltage_values ?s) sel (d_samples ?s)" by simp
    moreover from sum smp have "d_sample_index ?s + ?nb \<le> block_items (d_samples ?s)" by simp
    ultimately show "readable cv ?s ?nb c" using c by (intro wf_block_readable)
  qed
  let ?regs = "map (\<lambda>i. (region_tag ?s written i, region_items cv ?s ?nb (?act ! i))) [0..<?k]"
  let ?s' = "?s\<lparr>d_items_in_buffer := d_items_in_buffer ?s - ?nb,
                 d_sample_index := d_sample_index ?s + ?nb\<rparr>"
  have wc: "work_copy cv written ?k n ?s = (Produced ?nb ?regs, ?s')"
    using work_copy_readable [OF kle refl rd] .
  let ?sy' = "deliver ?regs (sy0\<lparr>blk := ?s', caller := Idle, results := results sy0 @ [to_int ?nb]\<rparr>)"
  from wc agree len
  have st: "(case work_copy cv written (length (ports sy)) n (blk sy) of
                 (r, b) \<Rightarrow> after_work n r b sy0) = Inr ?sy'"
    by (simp add: after_work_def)
  have lr: "length ?regs = length (ports (sy0\<lparr>blk := ?s', caller := Idle, results := results sy0 @ [to_int ?nb]\<rparr>))"
    using agree len by simp
  have plen: "length (ports ?sy') = ?k"
    using deliver_ports_length [OF lr] agree len by simp
  have pnth: "ports ?sy' ! i = consumed cv volts (sel ! i) ?log (d_sample_index ?s + ?nb)" if i: "i < ?k" for i
  proof -
    from i agree len have "ports ?sy' ! i = ports sy ! i @ snd (?regs ! i)"
      using deliver_ports [OF lr, of i] by simp
    also from i have "snd (?regs ! i) = region_items cv ?s ?nb (?act ! i)" by simp
    also from i sel chans have "?act ! i = sel ! i"
      by (metis nth_take)
    also have "region_items cv ?s ?nb (sel ! i) =
        converted cv volts (sel ! i) (take ?nb (drop (d_sample_index ?s) (last ?log ! (sel ! i))))"
      by (simp add: region_items_def volts smp)
    also from prt i have "ports sy ! i = consumed cv volts (sel ! i) ?log (d_sample_index ?s)" by simp
    finally show ?thesis by (simp add: consumed_advance)
  qed
  from rf ne have nf: "refill sy \<noteq> Fetching" "refill sy \<noteq> Fetched" by auto
  have "stream_inv cv volts chans sel ?sy'"
    unfolding stream_inv_def
    using volts chans plen sel wfl nf ne log smp sum pnth agree stream_inv_count [OF inv]
    by simp
  with st show ?thesis by blast
qed


lemma drained_keeps_stream_inv:
  assumes inv: "stream_inv cv volts chans sel sy" and z: "d_items_in_buffer (blk sy) = 0"
    and agree: "blk sy' = (blk sy)\<lparr>d_empty_buffer := True\<rparr>" "refill sy' = refill sy"
      "ports sy' = ports sy" "fetched sy' = fetched sy"
  shows "stream_inv cv volts chans sel sy'"
proof (cases "d_empty_buffer (blk sy)")
  case True
  with inv agree show ?thesis by (simp add: stream_inv_def)
next
  case False
  let ?log = "fetched sy"
  from inv False z have log: "?log \<noteq> []"
    and idx: "d_sample_index (blk sy) = block_items (last ?log)"
    and prt: "\<forall>i < length sel. ports sy ! i = consumed cv volts (sel ! i) ?log (d_sample_index (blk sy))"
    and wfl: "list_all (wf_block cv volts sel) ?log"
    by (simp_all add: stream_inv_def)
  from log wfl have wflast: "wf_block cv volts sel (last ?log)"
    by (simp add: list_all_iff)
  have "ports sy ! i = stream_of cv volts (sel ! i) ?log" if i: "i < length sel" for i
  proof -
    from i have "sel ! i \<in> set sel" by simp
    with wflast have "length (last ?log ! (sel ! i)) = block_items (last ?log)"
      by (simp add: wf_block_def)
    with idx have "length (last ?log ! (sel ! i)) \<le> d_sample_index (blk sy)" by simp
    from consumed_all [OF log this] prt i show ?thesis by simp
  qed
  with inv agree z show ?thesis by (simp add: stream_inv_def)
qed

lemma step_keeps_stream_inv:
  assumes inv: "stream_inv cv volts chans sel sy" and ev: "wf_event cv volts sel ev"
  shows "\<exists>sy'. step cv ev sy = Inr sy' \<and> stream_inv cv volts chans sel sy'"
proof (cases ev)
  case CallStart
  with ev show ?thesis by simp
next
  case CallStop
  with ev show ?thesis by simp
next
  case (CallWork n)
  show ?thesis
  proof (cases "caller sy")
    case (InWork m)
    with CallWork inv show ?thesis by simp
  next
    case Idle
    show ?thesis
    proof (cases "d_thread_stopped (blk sy)")
      case True
      with CallWork Idle have "step cv ev sy = Inr (sy\<lparr>blk := blk sy, caller := Idle, results := results sy @ [- 1]\<rparr>)"
        by (simp add: work_def after_work_def)
      moreover have "stream_inv cv volts chans sel (sy\<lparr>blk := blk sy, caller := Idle, results := results sy @ [- 1]\<rparr>)"
        by (rule stream_inv_fields [OF inv]) simp_all
      ultimately show ?thesis by blast
    next
      case run: False
      show ?thesis
      proof (cases "d_items_in_buffer (blk sy) = 0")
        case True
        let ?sy' = "sy\<lparr>blk := (blk sy)\<lparr>d_empty_buffer := True\<rparr>, caller := InWork n\<rparr>"
        from CallWork Idle run True have "step cv ev sy = Inr ?sy'"
          by (simp add: work_def after_work_def)
        moreover have "stream_inv cv volts chans sel ?sy'"
          by (rule drained_keeps_stream_inv [OF inv True]) simp_all
        ultimately show ?thesis by blast
      next
        case False
        with inv have ne: "\<not> d_empty_buffer (blk sy)"
          by (auto simp: stream_inv_def)
        from CallWork Idle run False ne
        have "step cv ev sy = (case work_copy cv (nitems_written sy) (length (ports sy)) n (blk sy) of
                 (r, b) \<Rightarrow> after_work n r b sy)"
          by (simp add: work_def)
        with copy_keeps_stream_inv [OF inv ne, where ?sy0.0 = sy and written = "nitems_written sy" and n = n]
        show ?thesis by simp
      qed
    qed
  qed
next
  case (Wake t)
  show ?thesis
  proof (cases "caller sy")
    case Idle
    with Wake inv show ?thesis by simp
  next
    case (InWork n)
    show ?thesis
    proof (cases "d_empty_buffer (blk sy)")
      case True
      then have "\<exists>sy'. step cv ev sy = Inr sy' \<and> blk sy' = blk sy \<and> refill sy' = refill sy \<and>
                  ports sy' = ports sy \<and> fetched sy' = fetched sy"
        using Wake InWork by (simp add: work_wake_def after_work_def)
      with inv show ?thesis by (blast intro: stream_inv_fields)
    next
      case ne: False
      show ?thesis
      proof (cases "d_thread_stopped (blk sy)")
        case True
        then have "\<exists>sy'. step cv ev sy = Inr sy' \<and> blk sy' = blk sy \<and> refill sy' = refill sy \<and>
                  ports sy' = ports sy \<and> fetched sy' = fetched sy"
          using Wake InWork ne by (simp add: work_wake_def after_work_def)
        with inv show ?thesis by (blast intro: stream_inv_fields)
      next
        case False
        let ?sy0 = "sy\<lparr>timeouts := timeouts sy + 0\<rparr>"
        from Wake InWork ne False
        have "step cv ev sy = (case work_copy cv (nitems_written sy) (length (ports sy)) n (blk sy) of
                 (r, b) \<Rightarrow> after_work n r b ?sy0)"
          by (simp add: work_wake_def split: prod.splits)
        with copy_keeps_stream_inv [OF inv ne, where ?sy0.0 = ?sy0 and written = "nitems_written sy" and n = n]
        show ?thesis by simp
      qed
    qed
  qed
next
  case RefillSched
  have a: "stream_inv cv volts chans sel (sy\<lparr>refill := loop_head (blk sy)\<rparr>)" if "refill sy = Spawned"
    using inv that by (simp add: stream_inv_def loop_head_def)
  have b: "stream_inv cv volts chans sel (sy\<lparr>refill := Fetching\<rparr>)"
    if "refill sy = CondWait" "d_empty_buffer (blk sy)"
    using inv that by (simp add: stream_inv_def)
  from RefillSched inv a b show ?thesis
    by (cases "refill sy") simp_all
next
  case (FetchReturns b)
  have a: "stream_inv cv volts chans sel (sy\<lparr>blk := (blk sy)\<lparr>d_samples := b\<rparr>, refill := Fetched\<rparr>)"
    if "refill sy = Fetching"
    using inv ev that FetchReturns by (simp add: stream_inv_def)
  from FetchReturns inv a show ?thesis
    by (cases "refill sy") simp_all
next
  case FetchThrows
  have a: "stream_inv cv volts chans sel
             (sy\<lparr>blk := (blk sy)\<lparr>d_thread_stopped := True\<rparr>, refill := NoThread\<rparr>)"
    if "refill sy = Fetching"
    using inv that by (simp add: stream_inv_def)
  from FetchThrows inv a show ?thesis
    by (cases "refill sy") simp_all
next
  case RefillLock
  show ?thesis
  proof (cases "refill sy = Fetched")
    case False
    with RefillLock inv show ?thesis by (cases "refill sy") simp_all
  next
    case True
    let ?s = "blk sy"
    from inv True have wf: "wf_block cv volts sel (d_samples ?s)" and em: "d_empty_buffer ?s"
      and prt: "\<forall>i < length sel. ports sy ! i = stream_of cv volts (sel ! i) (fetched sy)"
      by (simp_all add: stream_inv_def)
    from wf obtain ch0 rest where d: "d_samples ?s = ch0 # rest"
      by (cases "d_samples ?s") (auto simp: wf_block_def)
    let ?b = "?s\<lparr>d_items_in_buffer := length ch0, d_sample_index := 0, d_empty_buffer := False\<rparr>"
    let ?sy' = "sy\<lparr>blk := ?b, refill := loop_head ?b, fetched := fetched sy @ [d_samples ?s]\<rparr>"
    from d have ins: "install ?s = Inr ?b" by (simp add: install_def)
    with RefillLock True have st: "step cv ev sy = Inr ?sy'" by simp
    have lh: "loop_head ?b \<noteq> Fetching" "loop_head ?b \<noteq> Fetched"
      by (simp_all add: loop_head_def)
    have "stream_inv cv volts chans sel ?sy'"
      unfolding stream_inv_def
      using inv wf prt lh d
      by (simp add: stream_inv_def consumed_snoc_0 block_items_def)
    with st show ?thesis by blast
  qed
qed

lemma run_keeps_stream_inv:
  "stream_inv cv volts chans sel sy \<Longrightarrow> list_all (wf_event cv volts sel) evs \<Longrightarrow>
   \<exists>sy'. run cv evs sy = Inr sy' \<and> stream_inv cv volts chans sel sy'"
proof (induction evs arbitrary: sy)
  case Nil
  then show ?case by simp
next
  case (Cons ev evs)
  from Cons.prems have "wf_event cv volts sel ev" by simp
  from step_keeps_stream_inv [OF Cons.prems(1) this]
  obtain sy1 where s1: "step cv ev sy = Inr sy1" "stream_inv cv volts chans sel sy1" by blast
  from Cons.prems have "list_all (wf_event cv volts sel) evs" by simp
  from Cons.IH [OF s1(2) this] s1(1) show ?case by simp
qed

lemma started_stream_inv:
  assumes "k \<le> count_active (d_channels b)"
  shows "stream_inv cv (d_stream_voltage_values b) (d_channels b)
           (take k (active_channels (d_channels b))) (started b k)"
proof -
  from assms have "length (take k (active_channels (d_channels b))) = k"
    by (simp add: count_active_eq)
  with assms show ?thesis
    by (simp add: stream_inv_def started_def start_def)
qed

lemma stream_of_last:
  "log \<noteq> [] \<Longrightarrow>
   stream_of cv volts c log = stream_of cv volts c (butlast log) @ converted cv volts c (last log ! c)"
  using stream_of_snoc [of cv volts c "butlast log" "last log"] by simp

lemma converted_take: "converted cv volts c (take n xs) = take n (converted cv volts c xs)"
  by (simp add: converted_def take_map)

lemma stream_inv_prefix:
  assumes inv: "stream_inv cv volts chans sel sy" and i: "i < length sel"
  shows "d_items_in_buffer (blk sy) \<le> length (stream_of cv volts (sel ! i) (fetched sy)) \<and>
         ports sy ! i =
           take (length (stream_of cv volts (sel ! i) (fetched sy)) - d_items_in_buffer (blk sy))
                (stream_of cv volts (sel ! i) (fetched sy))"
proof (cases "d_empty_buffer (blk sy)")
  case True
  with inv i show ?thesis by (simp add: stream_inv_def)
next
  case False
  let ?log = "fetched sy"
  let ?c = "sel ! i"
  let ?A = "stream_of cv volts ?c (butlast ?log)"
  from inv False have log: "?log \<noteq> []"
    and sum: "d_sample_index (blk sy) + d_items_in_buffer (blk sy) = block_items (last ?log)"
    and prt: "\<forall>i < length sel. ports sy ! i = consumed cv volts (sel ! i) ?log (d_sample_index (blk sy))"
    and wfl: "list_all (wf_block cv volts sel) ?log"
    by (simp_all add: stream_inv_def)
  from log wfl have "wf_block cv volts sel (last ?log)" by (simp add: list_all_iff)
  with i have len: "length (last ?log ! ?c) = block_items (last ?log)"
    by (simp add: wf_block_def)
  have tot: "stream_of cv volts ?c ?log = ?A @ converted cv volts ?c (last ?log ! ?c)"
    by (rule stream_of_last [OF log])
  from prt i have p: "ports sy ! i = ?A @ take (d_sample_index (blk sy)) (converted cv volts ?c (last ?log ! ?c))"
    by (simp add: consumed_def converted_take)
  from tot len sum have l: "length (stream_of cv volts ?c ?log) - d_items_in_buffer (blk sy)
        = length ?A + d_sample_index (blk sy)"
    by simp
  from tot len sum have le: "d_items_in_buffer (blk sy) \<le> length (stream_of cv volts ?c ?log)"
    by simp
  from p l le show ?thesis by (simp add: tot)
qed

section \<open>The tags of a run\<close>

lemma marks_snoc: "marks off (ls @ [l]) = marks off ls @ [(off + sum_list ls, l)]"
  by (induction ls arbitrary: off) (simp_all add: add.assoc)

lemma stream_of_length:
  "list_all (wf_block cv volts sel) log \<Longrightarrow> c \<in> set sel \<Longrightarrow>
   length (stream_of cv volts c log) = sum_list (map block_items log)"
  by (induction log) (simp_all add: stream_of_def wf_block_def)

lemma copy_streams_tags:
  "copy_streams cv s written nb m osi ci = Inr regs \<Longrightarrow> i < m \<Longrightarrow>
   fst (regs ! i) = region_tag s written (osi + i)"
proof (induction m arbitrary: osi ci regs i)
  case 0
  then show ?case by simp
next
  case (Suc m)
  from Suc.prems(1) obtain c vs rest where
    r: "copy_streams cv s written nb m (Suc osi) (Suc c) = Inr rest"
    and regs: "regs = (region_tag s written osi, vs) # rest"
    by (auto simp: region_tag_def split: sum.splits)
  show ?case
  proof (cases i)
    case 0
    with regs show ?thesis by simp
  next
    case (Suc j)
    with Suc.prems(2) have "j < m" by simp
    from Suc.IH [OF r this] regs Suc show ?thesis by simp
  qed
qed

lemma deliver_tags:
  "length regs = length (port_tags sy) \<Longrightarrow> i < length (port_tags sy) \<Longrightarrow>
   port_tags (deliver regs sy) ! i = port_tags sy ! i @ tag_list (fst (regs ! i))"
  by (simp add: deliver_def)

lemma deliver_tags_length:
  "length regs = length (port_tags sy) \<Longrightarrow> length (port_tags (deliver regs sy)) = length (port_tags sy)"
  by (simp add: deliver_def)

lemma tag_inv_fields:
  "tag_inv k sy \<Longrightarrow> blk sy' = blk sy \<Longrightarrow> refill sy' = refill sy \<Longrightarrow>
   port_tags sy' = port_tags sy \<Longrightarrow> fetched sy' = fetched sy \<Longrightarrow>
   (\<forall>n. caller sy' = InWork n \<longrightarrow> 0 < n \<and> n < 2 ^ 31) \<Longrightarrow> tag_inv k sy'"
  by (simp add: tag_inv_def begun_def)

lemma copy_keeps_tag_inv:
  assumes inv: "stream_inv cv volts chans sel sy" and tinv: "tag_inv (length sel) sy"
    and ne: "\<not> d_empty_buffer (blk sy)" and n: "0 < n" "n < 2 ^ 31"
    and agree: "blk sy0 = blk sy" "refill sy0 = refill sy" "ports sy0 = ports sy"
      "fetched sy0 = fetched sy" "port_tags sy0 = port_tags sy"
    and st: "(case work_copy cv (nitems_written sy) (length (ports sy)) n (blk sy) of
                 (r, b) \<Rightarrow> after_work n r b sy0) = Inr sy'"
  shows "tag_inv (length sel) sy'"
proof -
  let ?s = "blk sy"
  let ?k = "length sel"
  let ?log = "fetched sy"
  let ?nb = "min (d_items_in_buffer ?s) (to_ulong n)"
  from inv have len: "length (ports sy) = ?k"
    and wfl: "list_all (wf_block cv volts sel) ?log"
    and rf: "refill sy = Fetching \<or> refill sy = Fetched \<longrightarrow> d_empty_buffer ?s"
    by (simp_all add: stream_inv_def)
  from inv ne have log: "?log \<noteq> []"
    and sum: "d_sample_index ?s + d_items_in_buffer ?s = block_items (last ?log)"
    and prt: "\<forall>i < ?k. ports sy ! i = consumed cv volts (sel ! i) ?log (d_sample_index ?s)"
    by (simp_all add: stream_inv_def)
  from tinv have tl: "length (port_tags sy) = ?k"
    and pos: "list_all (\<lambda>b. 0 < block_items b) ?log"
    and tg: "\<forall>i < ?k. port_tags sy ! i = marks 0 (map block_items (begun sy))"
    by (simp_all add: tag_inv_def)
  from log pos have lastpos: "0 < block_items (last ?log)" by (simp add: list_all_iff)
  from rf ne have nf: "refill sy \<noteq> Fetched" by auto
  obtain r b where wc: "work_copy cv (nitems_written sy) ?k n ?s = (r, b)"
    by (cases "work_copy cv (nitems_written sy) ?k n ?s")
  with st len have aw: "after_work n r b sy0 = Inr sy'" by simp
  from wc have "r \<noteq> Done" "r \<noteq> Waiting"
    by (auto simp: work_copy_def Let_def split: sum.splits)
  with aw obtain nb regs where r: "r = Produced nb regs"
    and sy': "sy' = deliver regs (sy0\<lparr>blk := b, caller := Idle, results := results sy0 @ [to_int nb]\<rparr>)"
    by (cases r) (auto simp: after_work_def)
  from wc r have cs: "copy_streams cv ?s (nitems_written sy) ?nb ?k 0 0 = Inr regs"
    and b: "b = ?s\<lparr>d_items_in_buffer := d_items_in_buffer ?s - ?nb,
                    d_sample_index := d_sample_index ?s + ?nb\<rparr>"
    by (auto simp: work_copy_def Let_def split: sum.splits)
  from cs have lr: "length regs = ?k" by (rule copy_streams_length)
  have lt: "length regs = length (port_tags (sy0\<lparr>blk := b, caller := Idle, results := results sy0 @ [to_int nb]\<rparr>))"
    using lr tl agree by simp
  have tlen: "length (port_tags sy') = ?k"
    using deliver_tags_length [OF lt] agree tl sy' by simp
  have tnth: "port_tags sy' ! i = port_tags sy ! i @ tag_list (region_tag ?s (nitems_written sy) i)"
    if i: "i < ?k" for i
    using deliver_tags [OF lt, of i] copy_streams_tags [OF cs i] i agree tl sy' by simp
  from n have un: "to_ulong n = nat n" by (simp add: to_ulong_def)
  from sy' have bsy': "blk sy' = b" by simp
  from sy' agree have fsy': "fetched sy' = ?log" by simp
  from b ne have neb: "\<not> d_empty_buffer b" by simp
  from b have idxb: "d_sample_index b = d_sample_index ?s + ?nb" by simp
  have main: "port_tags sy' ! i = marks 0 (map block_items (begun sy'))" if i: "i < ?k" for i
  proof (cases "d_sample_index ?s = 0")
    case True
    with sum lastpos n un have nbpos: "0 < ?nb" by simp
    from True ne have bg: "begun sy = butlast ?log" by (simp add: begun_def)
    from nbpos idxb have "d_sample_index b \<noteq> 0" by linarith
    with bsy' fsy' have bg': "begun sy' = ?log" by (simp add: begun_def)
    from i have ci: "sel ! i \<in> set sel" by simp
    from wfl have "list_all (wf_block cv volts sel) (butlast ?log)"
      by (metis list_all_iff in_set_butlastD)
    from stream_of_length [OF this ci]
    have "length (stream_of cv volts (sel ! i) (butlast ?log)) = sum_list (map block_items (butlast ?log))" .
    with prt i True have "length (ports sy ! i) = sum_list (map block_items (butlast ?log))"
      by (simp add: consumed_def)
    with i len have nw: "nitems_written sy i = sum_list (map block_items (butlast ?log))"
      by (simp add: nitems_written_def)
    from log have "map block_items ?log = map block_items (butlast ?log) @ [block_items (last ?log)]"
      by (metis append_butlast_last_id list.simps(8,9) map_append)
    then have "marks 0 (map block_items ?log) =
         marks 0 (map block_items (butlast ?log)) @
           [(sum_list (map block_items (butlast ?log)), block_items (last ?log))]"
      by (simp add: marks_snoc)
    with tnth [OF i] tg i bg bg' nw True sum show ?thesis
      by (simp add: region_tag_def tag_list_def)
  next
    case False
    with ne have bg: "begun sy = ?log" by (simp add: begun_def)
    from False idxb have "d_sample_index b \<noteq> 0" by linarith
    with bsy' fsy' have bg': "begun sy' = ?log" by (simp add: begun_def)
    from tnth [OF i] tg i bg bg' False show ?thesis
      by (simp add: region_tag_def tag_list_def)
  qed
  from sy' agree have "refill sy' = refill sy" "caller sy' = Idle" by simp_all
  with tlen pos nf main fsy' show ?thesis
    by (simp add: tag_inv_def)
qed

lemma drained_begun:
  assumes inv: "stream_inv cv volts chans sel sy" and tinv: "tag_inv (length sel) sy"
    and z: "d_items_in_buffer (blk sy) = 0"
  shows "begun sy = fetched sy"
proof (cases "d_empty_buffer (blk sy)")
  case True
  then show ?thesis by (simp add: begun_def)
next
  case False
  with inv z have log: "fetched sy \<noteq> []"
    and idx: "d_sample_index (blk sy) = block_items (last (fetched sy))"
    by (simp_all add: stream_inv_def)
  from tinv log have "0 < block_items (last (fetched sy))"
    by (simp add: tag_inv_def list_all_iff)
  with idx show ?thesis by (simp add: begun_def)
qed

lemma step_keeps_tag_inv:
  assumes inv: "stream_inv cv volts chans sel sy" and tinv: "tag_inv (length sel) sy"
    and ev: "tag_event ev" "wf_event cv volts sel ev"
    and st: "step cv ev sy = Inr sy'"
  shows "tag_inv (length sel) sy'"
proof (cases ev)
  case CallStart
  with ev show ?thesis by simp
next
  case CallStop
  with ev show ?thesis by simp
next
  case (CallWork n)
  with ev have n: "0 < n" "n < 2 ^ 31" by simp_all
  show ?thesis
  proof (cases "caller sy")
    case (InWork m)
    with CallWork st tinv show ?thesis by simp
  next
    case Idle
    show ?thesis
    proof (cases "d_thread_stopped (blk sy)")
      case True
      with CallWork Idle st
      have "sy' = sy\<lparr>blk := blk sy, caller := Idle, results := results sy @ [- 1]\<rparr>"
        by (simp add: work_def after_work_def)
      then show ?thesis by (intro tag_inv_fields [OF tinv]) simp_all
    next
      case run: False
      show ?thesis
      proof (cases "d_items_in_buffer (blk sy) = 0")
        case True
        with CallWork Idle run st
        have sy': "sy' = sy\<lparr>blk := (blk sy)\<lparr>d_empty_buffer := True\<rparr>, caller := InWork n\<rparr>"
          by (simp add: work_def after_work_def)
        from drained_begun [OF inv tinv True] have "begun sy = fetched sy" .
        moreover from sy' have "begun sy' = fetched sy" by (simp add: begun_def)
        ultimately show ?thesis using tinv sy' n by (simp add: tag_inv_def)
      next
        case False
        with inv have ne: "\<not> d_empty_buffer (blk sy)"
          by (auto simp: stream_inv_def)
        from CallWork Idle run False ne st
        have "(case work_copy cv (nitems_written sy) (length (ports sy)) n (blk sy) of
                 (r, b) \<Rightarrow> after_work n r b sy) = Inr sy'"
          by (simp add: work_def)
        from copy_keeps_tag_inv [OF inv tinv ne n _ _ _ _ _ this] show ?thesis by simp
      qed
    qed
  qed
next
  case (Wake t)
  show ?thesis
  proof (cases "caller sy")
    case Idle
    with Wake st tinv show ?thesis by simp
  next
    case (InWork n)
    with tinv have n: "0 < n" "n < 2 ^ 31" by (simp_all add: tag_inv_def)
    show ?thesis
    proof (cases "d_empty_buffer (blk sy)")
      case True
      with Wake InWork st n
      have "blk sy' = blk sy \<and> refill sy' = refill sy \<and> port_tags sy' = port_tags sy \<and>
            fetched sy' = fetched sy \<and> (\<forall>n. caller sy' = InWork n \<longrightarrow> 0 < n \<and> n < 2 ^ 31)"
        by (auto simp: work_wake_def after_work_def split: if_splits)
      then show ?thesis by (intro tag_inv_fields [OF tinv]) simp_all
    next
      case ne: False
      show ?thesis
      proof (cases "d_thread_stopped (blk sy)")
        case True
        with Wake InWork st ne
        have "blk sy' = blk sy \<and> refill sy' = refill sy \<and> port_tags sy' = port_tags sy \<and>
            fetched sy' = fetched sy \<and> caller sy' = Idle"
          by (auto simp: work_wake_def after_work_def)
        then show ?thesis by (intro tag_inv_fields [OF tinv]) simp_all
      next
        case False
        let ?sy0 = "sy\<lparr>timeouts := timeouts sy + 0\<rparr>"
        from Wake InWork ne False st
        have "(case work_copy cv (nitems_written sy) (length (ports sy)) n (blk sy) of
                 (r, b) \<Rightarrow> after_work n r b ?sy0) = Inr sy'"
          by (simp add: work_wake_def split: prod.splits)
        from copy_keeps_tag_inv [OF inv tinv ne n _ _ _ _ _ this] show ?thesis by simp
      qed
    qed
  qed
next
  case RefillSched
  with st have "blk sy' = blk sy \<and> port_tags sy' = port_tags sy \<and> fetched sy' = fetched sy \<and>
                caller sy' = caller sy \<and> (refill sy' = Fetched \<longrightarrow> refill sy = Fetched)"
    by (cases "refill sy") (auto simp: loop_head_def split: if_splits)
  with tinv show ?thesis by (simp add: tag_inv_def begun_def)
next
  case (FetchReturns b)
  with ev have pos: "0 < block_items b" by simp
  show ?thesis
  proof (cases "refill sy = Fetching")
    case True
    with FetchReturns st have "sy' = sy\<lparr>blk := (blk sy)\<lparr>d_samples := b\<rparr>, refill := Fetched\<rparr>"
      by simp
    with tinv pos show ?thesis by (simp add: tag_inv_def begun_def)
  next
    case False
    with FetchReturns st have "sy' = sy" by (cases "refill sy") simp_all
    with tinv show ?thesis by simp
  qed
next
  case FetchThrows
  show ?thesis
  proof (cases "refill sy = Fetching")
    case True
    with FetchThrows st
    have "sy' = sy\<lparr>blk := (blk sy)\<lparr>d_thread_stopped := True\<rparr>, refill := NoThread\<rparr>"
      by simp
    with tinv show ?thesis by (simp add: tag_inv_def begun_def)
  next
    case False
    with FetchThrows st have "sy' = sy" by (cases "refill sy") simp_all
    with tinv show ?thesis by simp
  qed
next
  case RefillLock
  show ?thesis
  proof (cases "refill sy = Fetched")
    case False
    with RefillLock st have "sy' = sy" by (cases "refill sy") simp_all
    with tinv show ?thesis by simp
  next
    case True
    with inv have em: "d_empty_buffer (blk sy)" by (simp add: stream_inv_def)
    from True tinv have pos: "0 < block_items (d_samples (blk sy))" by (simp add: tag_inv_def)
    from RefillLock True st obtain b where ins: "install (blk sy) = Inr b"
      and sy': "sy' = sy\<lparr>blk := b, refill := loop_head b,
                          fetched := fetched sy @ [d_samples (blk sy)]\<rparr>"
      by (auto split: sum.splits)
    from ins have b: "\<not> d_empty_buffer b" "d_sample_index b = 0"
      by (auto simp: install_def split: list.splits)
    from b have lh: "loop_head b \<noteq> Fetched" by (simp add: loop_head_def)
    from em have "begun sy = fetched sy" by (simp add: begun_def)
    moreover from sy' b have "begun sy' = fetched sy" by (simp add: begun_def)
    ultimately show ?thesis using tinv sy' pos lh by (simp add: tag_inv_def)
  qed
qed

lemma run_keeps_tag_inv:
  "stream_inv cv volts chans sel sy \<Longrightarrow> tag_inv (length sel) sy \<Longrightarrow>
   list_all (wf_event cv volts sel) evs \<Longrightarrow> list_all tag_event evs \<Longrightarrow>
   \<exists>sy'. run cv evs sy = Inr sy' \<and> stream_inv cv volts chans sel sy' \<and> tag_inv (length sel) sy'"
proof (induction evs arbitrary: sy)
  case Nil
  then show ?case by simp
next
  case (Cons ev evs)
  from Cons.prems have e: "wf_event cv volts sel ev" "tag_event ev" by simp_all
  from step_keeps_stream_inv [OF Cons.prems(1) e(1)]
  obtain sy1 where s1: "step cv ev sy = Inr sy1" "stream_inv cv volts chans sel sy1" by blast
  from step_keeps_tag_inv [OF Cons.prems(1,2) e(2,1) s1(1)]
  have t1: "tag_inv (length sel) sy1" .
  from Cons.prems have "list_all (wf_event cv volts sel) evs" "list_all tag_event evs" by simp_all
  from Cons.IH [OF s1(2) t1 this] s1(1) show ?case by simp
qed

lemma started_tag_inv: "tag_inv k (started b k)"
  by (simp add: tag_inv_def started_def start_def begun_def)

section \<open>The claims\<close>

text \<open>
  C6. In a call of \<^verbatim>\<open>work\<close> that copies, the regions are in one-to-one
  correspondence with the active channels, in channel order: with \<open>k\<close> regions, at least
  \<open>k\<close> active channels and readable samples, region \<open>i\<close> receives the converted samples
  of the \<open>i\<close>-th channel whose flag is set, read from the read cursor on.
\<close>

theorem work_regions_follow_active_channels:
  assumes "k \<le> count_active (d_channels s)"
    and "nb = min (d_items_in_buffer s) (to_ulong n)"
    and "\<forall>c \<in> set (take k (active_channels (d_channels s))). readable cv s nb c"
  shows "fst (work_copy cv written k n s) =
           Produced nb (map (\<lambda>i. (region_tag s written i,
                                  region_items cv s nb (active_channels (d_channels s) ! i))) [0..<k])"
  using work_copy_readable [OF assms, of written] by simp

theorem work_regions_follow_active_channels_witness:
  "1 \<le> count_active (d_channels demo_filled) \<and>
   list_all (readable demo_cv demo_filled 2) (take 1 (active_channels (d_channels demo_filled))) \<and>
   fst (work_copy demo_cv (\<lambda>i. 0) 1 2 demo_filled) = Produced 2 [(Some (0, 4), [5, 6])]"
proof -
  have a: "1 \<le> count_active (d_channels demo_filled)"
    by code_simp
  have b: "(2::nat) = min (d_items_in_buffer demo_filled) (to_ulong 2)"
    by code_simp
  have c: "\<forall>c \<in> set (take 1 (active_channels (d_channels demo_filled))). readable demo_cv demo_filled 2 c"
    by code_simp
  have d: "map (\<lambda>i. (region_tag demo_filled (\<lambda>i. 0) i,
                     region_items demo_cv demo_filled 2 (active_channels (d_channels demo_filled) ! i))) [0..<1]
           = [(Some (0, 4), [5, 6])]"
    by code_simp
  from work_regions_follow_active_channels [OF a b c, of "\<lambda>i. 0"] a c d
  show ?thesis by (simp add: list_all_iff)
qed


text \<open>
  C10. The loop that skips the inactive channels has no bound check. With at least as
  many active channel flags as output regions, a call never reads \<^verbatim>\<open>d_channels\<close>
  past its end; with fewer, and readable samples, the call does read past the end.
\<close>

theorem channel_skip_in_bounds:
  "(k \<le> count_active (d_channels s) \<longrightarrow>
      fst (work_copy cv written k n s) \<noteq> Raised ChannelOutOfRange) \<and>
   (count_active (d_channels s) < k \<longrightarrow>
      (\<forall>c \<in> set (active_channels (d_channels s)).
          readable cv s (min (d_items_in_buffer s) (to_ulong n)) c) \<longrightarrow>
      fst (work_copy cv written k n s) = Raised ChannelOutOfRange)"
proof (intro conjI impI)
  assume le: "k \<le> count_active (d_channels s)"
  show "fst (work_copy cv written k n s) \<noteq> Raised ChannelOutOfRange"
  proof
    assume "fst (work_copy cv written k n s) = Raised ChannelOutOfRange"
    then have "copy_streams cv s written (min (d_items_in_buffer s) (to_ulong n)) k 0 0 = Inl ChannelOutOfRange"
      by (simp add: work_copy_def Let_def split: sum.splits)
    then have "length (active_from (d_channels s) 0) < k"
      by (rule copy_streams_channel_error)
    with le show False by (simp add: count_active_eq active_channels_def)
  qed
next
  assume lt: "count_active (d_channels s) < k"
    and ok: "\<forall>c \<in> set (active_channels (d_channels s)).
          readable cv s (min (d_items_in_buffer s) (to_ulong n)) c"
  from lt have "length (active_from (d_channels s) 0) < k"
    by (simp add: count_active_eq active_channels_def)
  moreover from ok have "\<forall>c \<in> set (active_from (d_channels s) 0).
          \<exists>vs. copy_samples cv s c (min (d_items_in_buffer s) (to_ulong n)) 0 = Inr vs"
    by (simp add: active_channels_def copy_samples_readable)
  ultimately have "copy_streams cv s written (min (d_items_in_buffer s) (to_ulong n)) k 0 0 = Inl ChannelOutOfRange"
    by (rule copy_streams_short)
  then show "fst (work_copy cv written k n s) = Raised ChannelOutOfRange"
    by (simp add: work_copy_def Let_def)
qed

theorem channel_skip_in_bounds_witness:
  "1 \<le> count_active (d_channels demo_filled) \<and>
   fst (work_copy demo_cv (\<lambda>i. 0) 1 2 demo_filled) \<noteq> Raised ChannelOutOfRange \<and>
   count_active (d_channels demo_filled) < 2 \<and>
   list_all (readable demo_cv demo_filled (min (d_items_in_buffer demo_filled) (to_ulong 2)))
     (active_channels (d_channels demo_filled)) \<and>
   fst (work_copy demo_cv (\<lambda>i. 0) 2 2 demo_filled) = Raised ChannelOutOfRange"
proof -
  have a: "1 \<le> count_active (d_channels demo_filled)"
    by code_simp
  have b: "count_active (d_channels demo_filled) < 2"
    by code_simp
  have c: "\<forall>c \<in> set (active_channels (d_channels demo_filled)).
       readable demo_cv demo_filled (min (d_items_in_buffer demo_filled) (to_ulong 2)) c"
    by code_simp
  from channel_skip_in_bounds [of 1 demo_filled demo_cv "\<lambda>i. 0" 2]
       channel_skip_in_bounds [of 2 demo_filled demo_cv "\<lambda>i. 0" 2] a b c
  show ?thesis unfolding list_all_iff by blast
qed

text \<open>
  C8. \<^verbatim>\<open>get_context\<close> returns the registered context when there is one for the
  locator; otherwise it opens one and registers it, so that a later call with the same
  locator returns the same context; when the open fails it fails with the open error,
  and so does the constructor. \<^verbatim>\<open>remove_contexts\<close> closes and removes the registered
  context of the locator and does nothing when there is none. The context is registered
  under the locator it reports (\<^verbatim>\<open>ctx->getUri()\<close>), taken here to be the one it was
  opened with.
\<close>

theorem registry_acquire_release:
  assumes opened: "\<forall>u c. m2kOpen u = Some c \<longrightarrow> getUri c = u"
  shows "(s_contexts reg uri = Some c \<longrightarrow> get_context m2kOpen getUri uri reg = Inr (c, reg)) \<and>
         (s_contexts reg uri = None \<longrightarrow> m2kOpen uri = Some c \<longrightarrow>
            (\<exists>reg'. get_context m2kOpen getUri uri reg = Inr (c, reg') \<and>
                    s_contexts reg' = (s_contexts reg)(uri \<mapsto> c) \<and>
                    closed_log reg' = closed_log reg \<and>
                    get_context m2kOpen getUri uri reg' = Inr (c, reg'))) \<and>
         (s_contexts reg uri = None \<longrightarrow> m2kOpen uri = None \<longrightarrow>
            get_context m2kOpen getUri uri reg = Inl ContextOpenFailed \<and>
            construct m2kOpen getUri members uri buffer_size channels volts reg = Inl ContextOpenFailed) \<and>
         (s_contexts reg uri = Some c \<longrightarrow>
            s_contexts (remove_contexts uri reg) = (s_contexts reg)(uri := None) \<and>
            closed_log (remove_contexts uri reg) = closed_log reg @ [c]) \<and>
         (s_contexts reg uri = None \<longrightarrow> remove_contexts uri reg = reg)"
  using opened
  by (auto simp: get_context_def remove_contexts_def construct_def map_insert_def)

theorem registry_acquire_release_witness:
  "s_contexts demo_reg_open ''usb:'' = Some 7 \<and>
   get_context demo_open demo_uri ''usb:'' demo_reg_open = Inr (7, demo_reg_open) \<and>
   s_contexts demo_reg ''usb:'' = None \<and> demo_open ''usb:'' = Some 7 \<and>
   (\<exists>reg'. get_context demo_open demo_uri ''usb:'' demo_reg = Inr (7, reg') \<and>
           get_context demo_open demo_uri ''usb:'' reg' = Inr (7, reg')) \<and>
   s_contexts demo_reg ''ip:x'' = None \<and> demo_open ''ip:x'' = None \<and>
   get_context demo_open demo_uri ''ip:x'' demo_reg = Inl ContextOpenFailed \<and>
   closed_log (remove_contexts ''usb:'' demo_reg_open) = [7] \<and>
   s_contexts (remove_contexts ''usb:'' demo_reg_open) ''usb:'' = None \<and>
   remove_contexts ''usb:'' demo_reg = demo_reg"
proof -
  have h: "\<forall>u c. demo_open u = Some c \<longrightarrow> demo_uri c = u"
    by (simp add: demo_open_def demo_uri_def)
  have hit: "s_contexts demo_reg_open ''usb:'' = Some 7"
    by (simp add: demo_reg_open_def)
  have miss: "s_contexts demo_reg ''usb:'' = None" "s_contexts demo_reg ''ip:x'' = None"
    by (simp_all add: demo_reg_def)
  have op: "demo_open ''usb:'' = Some 7" "demo_open ''ip:x'' = None"
    by (simp_all add: demo_open_def)
  note a = registry_acquire_release [OF h, of demo_reg_open "''usb:''" 7]
  note b = registry_acquire_release [OF h, of demo_reg "''usb:''" 7]
  note c = registry_acquire_release [OF h, of demo_reg "''ip:x''" 7]
  from a hit have a1: "get_context demo_open demo_uri ''usb:'' demo_reg_open = Inr (7, demo_reg_open)"
    and a2: "closed_log (remove_contexts ''usb:'' demo_reg_open) = closed_log demo_reg_open @ [7]"
    and a3: "s_contexts (remove_contexts ''usb:'' demo_reg_open) = (s_contexts demo_reg_open)(''usb:'' := None)"
    by blast+
  from b miss op have b1: "\<exists>reg'. get_context demo_open demo_uri ''usb:'' demo_reg = Inr (7, reg') \<and>
           get_context demo_open demo_uri ''usb:'' reg' = Inr (7, reg')"
    and b2: "remove_contexts ''usb:'' demo_reg = demo_reg"
    by blast+
  from c miss op have c1: "get_context demo_open demo_uri ''ip:x'' demo_reg = Inl ContextOpenFailed"
    by blast
  from a2 have a2': "closed_log (remove_contexts ''usb:'' demo_reg_open) = [7]"
    by (simp add: demo_reg_open_def)
  from a3 have a3': "s_contexts (remove_contexts ''usb:'' demo_reg_open) ''usb:'' = None"
    by simp
  from h hit miss op a1 a2' a3' b1 b2 c1 show ?thesis by blast
qed

text \<open>
  C3. A call of \<^verbatim>\<open>work\<close> on an installed buffer whose request (a non-negative
  \<^verbatim>\<open>int\<close>) is smaller than the remaining count produces exactly the requested number
  of items in each region and lowers the remaining count by that number; the buffer
  stays installed and non-empty, so the refill thread stays in its wait and the next call
  copies from the same buffer without waiting.
\<close>

theorem partial_read_keeps_buffer:
  assumes run: "\<not> d_thread_stopped s" "\<not> d_empty_buffer s"
    and req: "0 \<le> n" "n < 2 ^ 31" "nat n < d_items_in_buffer s"
    and chans: "k \<le> count_active (d_channels s)"
    and rd: "\<forall>c \<in> set (take k (active_channels (d_channels s))). readable cv s (nat n) c"
  shows "\<exists>regs s'. work cv written k n s = (Produced (nat n) regs, s') \<and>
           return_value (Produced (nat n) regs) = Some n \<and>
           length regs = k \<and> (\<forall>r \<in> set regs. length (snd r) = nat n) \<and>
           d_items_in_buffer s' = d_items_in_buffer s - nat n \<and> 0 < d_items_in_buffer s' \<and>
           d_sample_index s' = d_sample_index s + nat n \<and>
           d_samples s' = d_samples s \<and> \<not> d_empty_buffer s' \<and>
           loop_head s' = CondWait \<and>
           (\<forall>written' n'. fst (work cv written' k n' s') \<noteq> Waiting \<and>
                           \<not> d_empty_buffer (snd (work cv written' k n' s')) \<and>
                           d_samples (snd (work cv written' k n' s')) = d_samples s) \<and>
           (\<forall>sy :: ('r, 'o) sys. blk sy = s' \<longrightarrow> refill sy = CondWait \<longrightarrow>
                 step cv RefillSched sy = Inr sy)"
proof -
  let ?nb = "nat n"
  let ?regs = "map (\<lambda>i. (region_tag s written i,
                          region_items cv s ?nb (active_channels (d_channels s) ! i))) [0..<k]"
  let ?s' = "s\<lparr>d_items_in_buffer := d_items_in_buffer s - ?nb,
               d_sample_index := d_sample_index s + ?nb\<rparr>"
  from req have nb: "?nb = min (d_items_in_buffer s) (to_ulong n)"
    by (simp add: to_ulong_nat)
  have wc: "work_copy cv written k n s = (Produced ?nb ?regs, ?s')"
    using work_copy_readable [OF chans nb rd, of written] .
  from run req have w: "work cv written k n s = (Produced ?nb ?regs, ?s')"
    by (simp add: work_def wc)
  have rv: "return_value (Produced ?nb ?regs) = Some n"
    using req by (simp add: return_value_def to_int_nat)
  from chans have kl: "k \<le> length (active_channels (d_channels s))"
    by (simp add: count_active_eq)
  have lens: "\<forall>r \<in> set ?regs. length (snd r) = ?nb"
  proof
    fix r assume "r \<in> set ?regs"
    then obtain i where i: "i < k" and r: "r = (region_tag s written i,
                          region_items cv s ?nb (active_channels (d_channels s) ! i))"
      by auto
    from i kl have "active_channels (d_channels s) ! i \<in> set (take k (active_channels (d_channels s)))"
      by (metis in_set_conv_nth length_take min.absorb2 nth_take)
    with rd have "readable cv s ?nb (active_channels (d_channels s) ! i)" by blast
    then show "length (snd r) = ?nb" by (simp add: r region_items_length)
  qed
  have next_call: "\<forall>written' n'. fst (work cv written' k n' ?s') \<noteq> Waiting \<and>
                           \<not> d_empty_buffer (snd (work cv written' k n' ?s')) \<and>
                           d_samples (snd (work cv written' k n' ?s')) = d_samples s"
    using run req by (auto simp: work_def work_copy_def Let_def split: sum.splits)
  from run req have rest: "d_items_in_buffer ?s' = d_items_in_buffer s - ?nb"
    "0 < d_items_in_buffer ?s'" "d_sample_index ?s' = d_sample_index s + ?nb"
    "d_samples ?s' = d_samples s" "\<not> d_empty_buffer ?s'" "loop_head ?s' = CondWait"
    by (simp_all add: loop_head_def)
  have no_fetch: "\<forall>sy :: ('r, 'o) sys. blk sy = ?s' \<longrightarrow> refill sy = CondWait \<longrightarrow>
                 step cv RefillSched sy = Inr sy"
    using run by simp
  from w rv lens rest next_call no_fetch show ?thesis
    by (intro exI [of _ ?regs] exI [of _ ?s']) simp
qed


theorem partial_read_keeps_buffer_witness:
  "\<not> d_thread_stopped demo_filled \<and> \<not> d_empty_buffer demo_filled \<and>
   (0::int) \<le> 2 \<and> (2::int) < 2 ^ 31 \<and> nat 2 < d_items_in_buffer demo_filled \<and>
   1 \<le> count_active (d_channels demo_filled) \<and>
   list_all (readable demo_cv demo_filled (nat 2))
     (take 1 (active_channels (d_channels demo_filled))) \<and>
   (\<exists>regs s'. work demo_cv (\<lambda>i. 0) 1 2 demo_filled = (Produced (nat 2) regs, s') \<and>
              length regs = 1 \<and> d_items_in_buffer s' = d_items_in_buffer demo_filled - nat 2 \<and>
              d_samples s' = d_samples demo_filled \<and> \<not> d_empty_buffer s')"
proof -
  have a: "\<not> d_thread_stopped demo_filled" "\<not> d_empty_buffer demo_filled"
    by (simp_all add: demo_filled_def)
  have b: "(0::int) \<le> 2" "(2::int) < 2 ^ 31" "nat 2 < d_items_in_buffer demo_filled"
    by (simp_all add: demo_filled_def)
  have c: "1 \<le> count_active (d_channels demo_filled)"
    by code_simp
  have d: "\<forall>c \<in> set (take 1 (active_channels (d_channels demo_filled))).
       readable demo_cv demo_filled (nat 2) c"
    by code_simp
  from partial_read_keeps_buffer [OF a b c d, of "\<lambda>i. 0"]
  obtain regs s' where "work demo_cv (\<lambda>i. 0) 1 2 demo_filled = (Produced (nat 2) regs, s')"
    "length regs = 1" "d_items_in_buffer s' = d_items_in_buffer demo_filled - nat 2"
    "d_samples s' = d_samples demo_filled" "\<not> d_empty_buffer s'"
    by blast
  with a b c d show ?thesis unfolding list_all_iff by blast
qed

text \<open>
  C4. When \<^verbatim>\<open>getSamplesRaw\<close> throws in the refill thread, the exception is caught
  there: the step gives a state, \<^verbatim>\<open>d_thread_stopped\<close> is set and the thread has left
  its loop. The next call of \<^verbatim>\<open>work\<close> returns \<open>-1\<close> and delivers nothing, and so does
  a call that is waiting, at its next timeout. Whatever happens later, short of a new
  \<^verbatim>\<open>start\<close>, no block is fetched or installed any more.
\<close>

theorem fetch_failure_ends_stream:
  assumes "refill sy = Fetching"
  shows "\<exists>sy'. step cv FetchThrows sy = Inr sy' \<and>
           d_thread_stopped (blk sy') \<and> refill sy' = NoThread \<and>
           fetched sy' = fetched sy \<and> ports sy' = ports sy \<and>
           (\<forall>written k n. work cv written k n (blk sy') = (Done, blk sy')) \<and>
           return_value (Done :: 'o outcome) = Some (- 1) \<and>
           (\<forall>n. caller sy' = Idle \<longrightarrow>
                (\<exists>sy''. step cv (CallWork n) sy' = Inr sy'' \<and>
                        results sy'' = results sy' @ [- 1] \<and> ports sy'' = ports sy')) \<and>
           (\<forall>n. caller sy' = InWork n \<longrightarrow>
                (\<exists>sy''. step cv (Wake True) sy' = Inr sy'' \<and> timeouts sy'' = timeouts sy' \<and>
                        results sy'' = results sy' @ [- 1] \<and> ports sy'' = ports sy')) \<and>
           (\<forall>evs. CallStart \<notin> set evs \<longrightarrow>
                (\<exists>sy''. run cv evs sy' = Inr sy'' \<and> refill sy'' = NoThread \<and>
                        d_thread_stopped (blk sy'') \<and> fetched sy'' = fetched sy \<and>
                        d_samples (blk sy'') = d_samples (blk sy) \<and> ports sy'' = ports sy))"
proof -
  let ?sy' = "sy\<lparr>blk := (blk sy)\<lparr>d_thread_stopped := True\<rparr>, refill := NoThread\<rparr>"
  from assms have st: "step cv FetchThrows sy = Inr ?sy'" by simp
  have w: "\<forall>written k n. work cv written k n (blk ?sy') = (Done, blk ?sy')"
    by (simp add: work_def)
  have rv: "return_value (Done :: 'o outcome) = Some (- 1)"
    by (simp add: return_value_def)
  have cw: "\<forall>n. caller ?sy' = Idle \<longrightarrow>
                (\<exists>sy''. step cv (CallWork n) ?sy' = Inr sy'' \<and>
                        results sy'' = results ?sy' @ [- 1] \<and> ports sy'' = ports ?sy')"
    by (simp add: work_def after_work_def)
  have wk: "\<forall>n. caller ?sy' = InWork n \<longrightarrow>
                (\<exists>sy''. step cv (Wake True) ?sy' = Inr sy'' \<and> timeouts sy'' = timeouts ?sy' \<and>
                        results sy'' = results ?sy' @ [- 1] \<and> ports sy'' = ports ?sy')"
    by (simp add: work_wake_def after_work_def)
  have later: "\<forall>evs. CallStart \<notin> set evs \<longrightarrow>
                (\<exists>sy''. run cv evs ?sy' = Inr sy'' \<and> refill sy'' = NoThread \<and>
                        d_thread_stopped (blk sy'') \<and> fetched sy'' = fetched sy \<and>
                        d_samples (blk sy'') = d_samples (blk sy) \<and> ports sy'' = ports sy)"
  proof (intro allI impI)
    fix evs :: "'a event list"
    assume "CallStart \<notin> set evs"
    from stopped_run [of ?sy' evs cv, OF _ _ this]
    show "\<exists>sy''. run cv evs ?sy' = Inr sy'' \<and> refill sy'' = NoThread \<and>
                        d_thread_stopped (blk sy'') \<and> fetched sy'' = fetched sy \<and>
                        d_samples (blk sy'') = d_samples (blk sy) \<and> ports sy'' = ports sy"
      by auto
  qed
  from st w rv cw wk later show ?thesis
    by (intro exI [of _ ?sy']) simp
qed

theorem fetch_failure_ends_stream_witness:
  "refill demo_fetching = Fetching \<and>
   (\<exists>sy'. step demo_cv FetchThrows demo_fetching = Inr sy' \<and>
          d_thread_stopped (blk sy') \<and> refill sy' = NoThread \<and>
          work demo_cv (\<lambda>i. 0) 1 1024 (blk sy') = (Done, blk sy') \<and>
          (\<exists>sy''. run demo_cv [CallWork 1024, RefillSched, FetchReturns demo_block, RefillLock] sy'
                     = Inr sy'' \<and> fetched sy'' = [] \<and> ports sy'' = [[]]))"
proof -
  have a: "refill demo_fetching = Fetching"
    by (simp add: demo_fetching_def)
  have b: "CallStart \<notin> set [CallWork 1024, RefillSched, FetchReturns demo_block, RefillLock]"
    by simp
  have c: "fetched demo_fetching = []" "ports demo_fetching = [[]]"
    by (simp_all add: demo_fetching_def demo_started_def started_def)
  from fetch_failure_ends_stream [OF a, of demo_cv] b c a show ?thesis
    by metis
qed

text \<open>
  C7, as the code has it. A call of \<^verbatim>\<open>work\<close> that finds no items left sets
  \<^verbatim>\<open>d_empty_buffer\<close> and waits. Each timeout of \<^verbatim>\<open>wait_for\<close> that finds the buffer
  still empty and the block not stopped publishes one \<^verbatim>\<open>"timeout"\<close> message, and the
  call goes on waiting: after \<open>j\<close> timeouts with no block it has published \<open>j\<close> messages
  and has not returned. A wake-up before the timeout changes nothing. After \<^verbatim>\<open>stop\<close>
  the call returns \<open>-1\<close> at its next timeout, with no further message. (The length of
  the timeout, 100 ms, is not part of the model.)
\<close>

theorem work_waits_through_timeouts:
  assumes "caller sy = Idle" "\<not> d_thread_stopped (blk sy)" "d_items_in_buffer (blk sy) = 0"
  shows "run cv (CallWork n # replicate j (Wake True)) sy =
           Inr (sy\<lparr>blk := (blk sy)\<lparr>d_empty_buffer := True\<rparr>, caller := InWork n,
                   timeouts := timeouts sy + j\<rparr>) \<and>
         run cv (CallWork n # replicate j (Wake True) @ [Wake False]) sy =
           Inr (sy\<lparr>blk := (blk sy)\<lparr>d_empty_buffer := True\<rparr>, caller := InWork n,
                   timeouts := timeouts sy + j\<rparr>) \<and>
         run cv (CallWork n # replicate j (Wake True) @ [CallStop, Wake False, Wake True]) sy =
           Inr (sy\<lparr>blk := stop (blk sy), caller := Idle,
                   timeouts := timeouts sy + j, results := results sy @ [- 1]\<rparr>)"
proof -
  let ?sy1 = "sy\<lparr>blk := (blk sy)\<lparr>d_empty_buffer := True\<rparr>, caller := InWork n\<rparr>"
  let ?sy2 = "?sy1\<lparr>timeouts := timeouts ?sy1 + j\<rparr>"
  from assms have st: "step cv (CallWork n) sy = Inr ?sy1"
    by (simp add: work_def after_work_def)
  from assms have lp: "run cv (replicate j (Wake True)) ?sy1 = Inr ?sy2"
    by (intro timeouts_while_empty) simp_all
  have first: "run cv (CallWork n # evs) sy = run cv evs ?sy1" for evs
    using st by (simp del: step.simps)
  have loop: "run cv (replicate j (Wake True) @ evs) ?sy1 = run cv evs ?sy2" for evs
    by (simp only: run_append lp sum.case)
  have a: "run cv (CallWork n # replicate j (Wake True)) sy = Inr ?sy2"
    by (simp only: first lp)
  have b: "run cv [Wake False] ?sy2 = Inr ?sy2"
    by (simp add: work_wake_def after_work_def)
  have c: "run cv [CallStop, Wake False, Wake True] ?sy2 =
             Inr (sy\<lparr>blk := stop (blk sy), caller := Idle,
                     timeouts := timeouts sy + j, results := results sy @ [- 1]\<rparr>)"
    by (simp add: work_wake_def after_work_def stop_def)
  have ab: "run cv (CallWork n # replicate j (Wake True) @ [Wake False]) sy = Inr ?sy2"
    by (simp only: first loop b)
  have ac: "run cv (CallWork n # replicate j (Wake True) @ [CallStop, Wake False, Wake True]) sy =
             Inr (sy\<lparr>blk := stop (blk sy), caller := Idle,
                     timeouts := timeouts sy + j, results := results sy @ [- 1]\<rparr>)"
    by (simp only: first loop c)
  from a ab ac show ?thesis by simp
qed

theorem work_waits_through_timeouts_witness:
  "caller demo_started = Idle \<and> \<not> d_thread_stopped (blk demo_started) \<and>
   d_items_in_buffer (blk demo_started) = 0 \<and>
   run demo_cv (CallWork 1024 # replicate 5 (Wake True)) demo_started =
     Inr (demo_started\<lparr>blk := (blk demo_started)\<lparr>d_empty_buffer := True\<rparr>,
                      caller := InWork 1024, timeouts := 5\<rparr>) \<and>
   run demo_cv (CallWork 1024 # replicate 5 (Wake True) @ [CallStop, Wake False, Wake True])
       demo_started =
     Inr (demo_started\<lparr>blk := stop (blk demo_started), caller := Idle,
                      timeouts := 5, results := [- 1]\<rparr>)"
proof -
  have a: "caller demo_started = Idle" "\<not> d_thread_stopped (blk demo_started)"
    "d_items_in_buffer (blk demo_started) = 0"
    by (simp_all add: demo_started_def started_def start_def)
  have t: "timeouts demo_started = 0" "results demo_started = []"
    by (simp_all add: demo_started_def started_def)
  from work_waits_through_timeouts [OF a, of demo_cv 1024 5] a t show ?thesis
    by simp
qed

text \<open>
  C7 as stated fails: with the fetch hanging, the call has not returned to the scheduler
  after one timeout, nor after three.
\<close>

theorem work_returns_within_timeout_counterexample:
  "\<exists>sy. run demo_cv [CallWork 1024, Wake True, Wake True, Wake True] demo_started = Inr sy \<and>
        caller sy = InWork 1024 \<and> results sy = [] \<and> timeouts sy = 3 \<and> refill sy = Spawned"
  by (simp add: demo_started_def started_def start_def work_def work_wake_def after_work_def
      demo_inst_def)

text \<open>
  C2, as the code has it. The read cursor and the remaining count add up to the number of
  items of the block installed last (zero when none has been): every installation by the
  refill thread establishes this, and every other step but \<^verbatim>\<open>start\<close> keeps it (a call
  of \<^verbatim>\<open>work\<close>, a wake-up, a return or a failure of the fetch, \<^verbatim>\<open>stop\<close>).
\<close>

theorem cursor_invariant_kept:
  "(ev \<noteq> CallStart \<longrightarrow> cursor_inv sy \<longrightarrow> step cv ev sy = Inr sy' \<longrightarrow> cursor_inv sy') \<and>
   (refill sy = Fetched \<longrightarrow> step cv RefillLock sy = Inr sy' \<longrightarrow> cursor_inv sy')"
proof (intro conjI impI)
  assume ev: "ev \<noteq> CallStart" and inv: "cursor_inv sy" and st: "step cv ev sy = Inr sy'"
  show "cursor_inv sy'"
  proof (cases ev)
    case CallStart
    with ev show ?thesis by simp
  next
    case CallStop
    with st inv show ?thesis by (auto simp: cursor_inv_def stop_def)
  next
    case (CallWork n)
    show ?thesis
    proof (cases "caller sy")
      case Idle
      obtain r b where w: "work cv (nitems_written sy) (length (ports sy)) n (blk sy) = (r, b)"
        by (cases "work cv (nitems_written sy) (length (ports sy)) n (blk sy)")
      with st CallWork Idle have "after_work n r b sy = Inr sy'" by simp
      from after_work_cursor [OF this] work_sum [OF w] inv show ?thesis
        by (simp add: cursor_inv_def)
    next
      case (InWork m)
      with st CallWork inv show ?thesis by simp
    qed
  next
    case (Wake t)
    show ?thesis
    proof (cases "caller sy")
      case Idle
      with st Wake inv show ?thesis by simp
    next
      case (InWork n)
      obtain r p b where w: "work_wake cv (nitems_written sy) (length (ports sy)) n t (blk sy) = ((r, p), b)"
        by (cases "work_wake cv (nitems_written sy) (length (ports sy)) n t (blk sy)") auto
      with st Wake InWork have "after_work n r b (sy\<lparr>timeouts := timeouts sy + p\<rparr>) = Inr sy'" by simp
      from after_work_cursor [OF this] work_wake_sum [OF w] inv show ?thesis
        by (simp add: cursor_inv_def)
    qed
  next
    case RefillSched
    with st inv show ?thesis
      by (cases "refill sy") (auto simp: cursor_inv_def split: if_splits)
  next
    case (FetchReturns b)
    with st inv show ?thesis
      by (cases "refill sy") (auto simp: cursor_inv_def)
  next
    case FetchThrows
    with st inv show ?thesis
      by (cases "refill sy") (auto simp: cursor_inv_def)
  next
    case RefillLock
    with st inv show ?thesis
      by (cases "refill sy")
         (auto simp: cursor_inv_def installed_items_snoc dest: install_cursor split: sum.splits)
  qed
next
  assume "refill sy = Fetched" and "step cv RefillLock sy = Inr sy'"
  then show "cursor_inv sy'"
    by (auto simp: cursor_inv_def installed_items_snoc dest: install_cursor split: sum.splits)
qed

theorem cursor_invariant_kept_witness:
  "cursor_inv demo_installed \<and>
   (\<exists>sy'. step demo_cv (CallWork 2) demo_installed = Inr sy' \<and> cursor_inv sy' \<and>
          d_sample_index (blk sy') = 2 \<and> d_items_in_buffer (blk sy') = 2) \<and>
   refill (demo_fetching\<lparr>blk := (blk demo_fetching)\<lparr>d_samples := demo_block\<rparr>, refill := Fetched\<rparr>) = Fetched \<and>
   (\<exists>sy'. step demo_cv RefillLock
            (demo_fetching\<lparr>blk := (blk demo_fetching)\<lparr>d_samples := demo_block\<rparr>, refill := Fetched\<rparr>)
            = Inr sy' \<and> cursor_inv sy')"
proof -
  let ?f = "demo_fetching\<lparr>blk := (blk demo_fetching)\<lparr>d_samples := demo_block\<rparr>, refill := Fetched\<rparr>"
  have a: "cursor_inv demo_installed"
    by code_simp
  have b: "case step demo_cv (CallWork 2) demo_installed of
             Inl e \<Rightarrow> False
           | Inr sy' \<Rightarrow> d_sample_index (blk sy') = 2 \<and> d_items_in_buffer (blk sy') = 2"
    by code_simp
  then obtain sy1 where sy1: "step demo_cv (CallWork 2) demo_installed = Inr sy1"
    "d_sample_index (blk sy1) = 2" "d_items_in_buffer (blk sy1) = 2"
    by (cases "step demo_cv (CallWork 2) demo_installed") auto
  have c: "refill ?f = Fetched" by simp
  have d: "case step demo_cv RefillLock ?f of Inl e \<Rightarrow> False | Inr sy' \<Rightarrow> True"
    by code_simp
  then obtain sy2 where sy2: "step demo_cv RefillLock ?f = Inr sy2"
    by (cases "step demo_cv RefillLock ?f") auto
  have e: "(CallWork 2 :: int event) \<noteq> CallStart" by simp
  from cursor_invariant_kept [of "CallWork 2" demo_installed demo_cv sy1] a e sy1
  have i1: "cursor_inv sy1" by blast
  from cursor_invariant_kept [of RefillLock ?f demo_cv sy2] c sy2
  have i2: "cursor_inv sy2" by blast
  from a sy1 i1 c sy2 i2 show ?thesis by blast
qed

text \<open>
  C2 as stated fails: \<^verbatim>\<open>start\<close> sets the remaining count to zero and leaves the read
  cursor. After a block of four items, a call that reads two, \<^verbatim>\<open>stop\<close> and
  \<^verbatim>\<open>start\<close>, the cursor is 2 and the remaining count 0: they add up neither to the four
  items of the block nor to zero.
\<close>

theorem cursor_invariant_counterexample:
  "\<exists>sy. run demo_cv [RefillSched, FetchReturns demo_block, RefillLock, CallWork 2, CallStop,
                      CallStart] demo_started = Inr sy \<and>
        d_samples (blk sy) = demo_block \<and> fetched sy = [demo_block] \<and>
        block_items demo_block = 4 \<and>
        d_sample_index (blk sy) = 2 \<and> d_items_in_buffer (blk sy) = 0 \<and>
        \<not> cursor_inv sy"
proof -
  have "case run demo_cv [RefillSched, FetchReturns demo_block, RefillLock, CallWork 2, CallStop,
                      CallStart] demo_started of
          Inl e \<Rightarrow> False
        | Inr sy \<Rightarrow> d_samples (blk sy) = demo_block \<and> fetched sy = [demo_block] \<and>
            block_items demo_block = 4 \<and>
            d_sample_index (blk sy) = 2 \<and> d_items_in_buffer (blk sy) = 0 \<and>
            \<not> cursor_inv sy"
    by code_simp
  then show ?thesis
    by (cases "run demo_cv [RefillSched, FetchReturns demo_block, RefillLock, CallWork 2, CallStop,
                      CallStart] demo_started") auto
qed


text \<open>
  C1, as the code has it. In a run from \<^verbatim>\<open>start\<close> without \<^verbatim>\<open>stop\<close> or a second
  \<^verbatim>\<open>start\<close>, whatever the interleaving of the calls of \<^verbatim>\<open>work\<close>, the wake-ups and
  the steps of the refill thread, and with well-formed blocks: the run does not fail, and
  each port holds a prefix of the concatenation, in fetch order, of the converted samples
  that the installed blocks have for its channel; the prefix lacks exactly the remaining
  items, so the two are equal when nothing remains.
\<close>

theorem produced_prefix_of_fetched:
  assumes "k \<le> count_active (d_channels b)"
    and "list_all (wf_event cv (d_stream_voltage_values b) (take k (active_channels (d_channels b)))) evs"
  shows "\<exists>sy. run cv evs (started b k) = Inr sy \<and> length (ports sy) = k \<and>
           (\<forall>i < k.
              d_items_in_buffer (blk sy)
                \<le> length (stream_of cv (d_stream_voltage_values b) (active_channels (d_channels b) ! i) (fetched sy)) \<and>
              ports sy ! i =
                take (length (stream_of cv (d_stream_voltage_values b) (active_channels (d_channels b) ! i) (fetched sy))
                        - d_items_in_buffer (blk sy))
                     (stream_of cv (d_stream_voltage_values b) (active_channels (d_channels b) ! i) (fetched sy)))"
proof -
  let ?sel = "take k (active_channels (d_channels b))"
  let ?volts = "d_stream_voltage_values b"
  from assms(1) have lk: "length ?sel = k" by (simp add: count_active_eq)
  from run_keeps_stream_inv [OF started_stream_inv [OF assms(1)] assms(2)]
  obtain sy where sy: "run cv evs (started b k) = Inr sy"
    and inv: "stream_inv cv ?volts (d_channels b) ?sel sy"
    by blast
  from inv lk have lp: "length (ports sy) = k" by (simp add: stream_inv_def)
  have "d_items_in_buffer (blk sy)
                \<le> length (stream_of cv ?volts (active_channels (d_channels b) ! i) (fetched sy)) \<and>
              ports sy ! i =
                take (length (stream_of cv ?volts (active_channels (d_channels b) ! i) (fetched sy))
                        - d_items_in_buffer (blk sy))
                     (stream_of cv ?volts (active_channels (d_channels b) ! i) (fetched sy))"
    if i: "i < k" for i
  proof -
    from i lk have "i < length ?sel" by simp
    from stream_inv_prefix [OF inv this] i show ?thesis by simp
  qed
  with sy lp show ?thesis by blast
qed

theorem produced_prefix_of_fetched_witness:
  "1 \<le> count_active (d_channels demo_inst) \<and>
   list_all (wf_event demo_cv (d_stream_voltage_values demo_inst)
               (take 1 (active_channels (d_channels demo_inst))))
     [RefillSched, FetchReturns demo_block, RefillLock, CallWork 3] \<and>
   (\<exists>sy. run demo_cv [RefillSched, FetchReturns demo_block, RefillLock, CallWork 3] (started demo_inst 1) = Inr sy \<and>
         ports sy = [[5, 6, 7]] \<and> d_items_in_buffer (blk sy) = 1 \<and>
         stream_of demo_cv (d_stream_voltage_values demo_inst)
           (active_channels (d_channels demo_inst) ! 0) (fetched sy) = [5, 6, 7, 8])"
proof -
  let ?evs = "[RefillSched, FetchReturns demo_block, RefillLock, CallWork 3]"
  have a: "1 \<le> count_active (d_channels demo_inst)" by code_simp
  have b: "list_all (wf_event demo_cv (d_stream_voltage_values demo_inst)
               (take 1 (active_channels (d_channels demo_inst)))) ?evs"
    by code_simp
  from produced_prefix_of_fetched [OF a b]
  obtain sy where sy: "run demo_cv ?evs (started demo_inst 1) = Inr sy" by blast
  have c: "case run demo_cv ?evs (started demo_inst 1) of
             Inl e \<Rightarrow> False
           | Inr sy \<Rightarrow> ports sy = [[5, 6, 7]] \<and> d_items_in_buffer (blk sy) = 1 \<and>
               stream_of demo_cv (d_stream_voltage_values demo_inst)
                 (active_channels (d_channels demo_inst) ! 0) (fetched sy) = [5, 6, 7, 8]"
    by code_simp
  with sy a b show ?thesis by auto
qed

text \<open>
  C1 as stated fails: after one block of four items and one call that requests two (two
  requested, four fetched), the port holds two items, not the four that were fetched.
\<close>

theorem produced_equals_fetched_counterexample:
  "\<exists>sy. run demo_cv [RefillSched, FetchReturns demo_block, RefillLock, CallWork 2] demo_started = Inr sy \<and>
        results sy = [2] \<and> fetched sy = [demo_block] \<and> block_items demo_block = 4 \<and>
        ports sy = [[5, 6]] \<and>
        stream_of demo_cv False 1 (fetched sy) = [5, 6, 7, 8] \<and>
        ports sy ! 0 \<noteq> stream_of demo_cv False 1 (fetched sy)"
proof -
  have "case run demo_cv [RefillSched, FetchReturns demo_block, RefillLock, CallWork 2] demo_started of
          Inl e \<Rightarrow> False
        | Inr sy \<Rightarrow> results sy = [2] \<and> fetched sy = [demo_block] \<and> block_items demo_block = 4 \<and>
            ports sy = [[5, 6]] \<and>
            stream_of demo_cv False 1 (fetched sy) = [5, 6, 7, 8] \<and>
            ports sy ! 0 \<noteq> stream_of demo_cv False 1 (fetched sy)"
    by code_simp
  then show ?thesis
    by (cases "run demo_cv [RefillSched, FetchReturns demo_block, RefillLock, CallWork 2] demo_started") auto
qed


text \<open>
  C5. In a run from \<^verbatim>\<open>start\<close> (no \<^verbatim>\<open>stop\<close>, no second \<^verbatim>\<open>start\<close>) with positive
  requests and well-formed, non-empty blocks, every port carries exactly one
  \<^verbatim>\<open>buffer_start\<close> tag for each block from which a call has copied, in fetch order:
  its offset is the number of items of the earlier blocks, which is where the first
  sample of the block stands on the port, and its value is the number of items of the
  block. In any call that copies, region \<open>i\<close> gets the tag
  (\<^verbatim>\<open>nitems_written(i)\<close>, \<^verbatim>\<open>d_items_in_buffer\<close>) when the read cursor is zero, and no
  tag when it is not.
\<close>

theorem buffer_start_tags:
  assumes "k \<le> count_active (d_channels b)"
    and "list_all (wf_event cv (d_stream_voltage_values b) (take k (active_channels (d_channels b)))) evs"
    and "list_all tag_event evs"
  shows "(\<exists>sy. run cv evs (started b k) = Inr sy \<and> length (port_tags sy) = k \<and>
              (\<forall>i < k. port_tags sy ! i = marks 0 (map block_items (begun sy)))) \<and>
         (\<forall>written k' n s nb regs s' i.
             work_copy cv written k' n s = (Produced nb regs, s') \<longrightarrow> i < k' \<longrightarrow>
             fst (regs ! i) =
               (if d_sample_index s = 0 then Some (written i, d_items_in_buffer s) else None))"
proof
  let ?sel = "take k (active_channels (d_channels b))"
  from assms(1) have lk: "length ?sel = k" by (simp add: count_active_eq)
  have t0: "tag_inv (length ?sel) (started b k :: ('a, 'b) sys)"
    using started_tag_inv [of k b] lk by simp
  from run_keeps_tag_inv [OF started_stream_inv [OF assms(1)] t0 assms(2,3)]
  obtain sy where "run cv evs (started b k) = Inr sy" "tag_inv (length ?sel) sy"
    by blast
  with lk show "\<exists>sy. run cv evs (started b k) = Inr sy \<and> length (port_tags sy) = k \<and>
              (\<forall>i < k. port_tags sy ! i = marks 0 (map block_items (begun sy)))"
    by (auto simp: tag_inv_def)
next
  show "\<forall>written k' n s nb regs s' i.
             work_copy cv written k' n s = (Produced nb regs, s') \<longrightarrow> i < k' \<longrightarrow>
             fst (regs ! i) =
               (if d_sample_index s = 0 then Some (written i, d_items_in_buffer s) else None)"
  proof (intro allI impI)
    fix written k' n and s :: "'a inst" and nb and regs :: "'b region list" and s' i
    assume wc: "work_copy cv written k' n s = (Produced nb regs, s')" and i: "i < k'"
    from wc have "copy_streams cv s written (min (d_items_in_buffer s) (to_ulong n)) k' 0 0 = Inr regs"
      by (auto simp: work_copy_def Let_def split: sum.splits)
    from copy_streams_tags [OF this i]
    show "fst (regs ! i) =
               (if d_sample_index s = 0 then Some (written i, d_items_in_buffer s) else None)"
      by (simp add: region_tag_def)
  qed
qed

theorem buffer_start_tags_witness:
  "1 \<le> count_active (d_channels demo_inst) \<and>
   list_all (wf_event demo_cv (d_stream_voltage_values demo_inst)
               (take 1 (active_channels (d_channels demo_inst)))) demo_run \<and>
   list_all tag_event demo_run \<and>
   (\<exists>sy. run demo_cv demo_run (started demo_inst 1) = Inr sy \<and>
         ports sy = [[5, 6, 7, 8, 5, 6, 7, 8]] \<and> port_tags sy = [[(0, 4), (4, 4)]] \<and>
         port_tags sy ! 0 = marks 0 (map block_items (begun sy))) \<and>
   work_copy demo_cv (\<lambda>i. 0) 1 2 demo_filled =
     (Produced 2 [(Some (0, 4), [5, 6])],
      demo_filled\<lparr>d_items_in_buffer := 2, d_sample_index := 2\<rparr>) \<and>
   fst ([(Some (0 :: nat, 4 :: nat), [5, 6 :: int])] ! 0) =
     (if d_sample_index demo_filled = 0 then Some (0, d_items_in_buffer demo_filled) else None)"
proof -
  have a: "1 \<le> count_active (d_channels demo_inst)" by code_simp
  have b: "list_all (wf_event demo_cv (d_stream_voltage_values demo_inst)
               (take 1 (active_channels (d_channels demo_inst)))) demo_run"
    by code_simp
  have c: "list_all tag_event demo_run" by code_simp
  note t = buffer_start_tags [OF a b c, THEN conjunct1]
  then obtain sy where sy: "run demo_cv demo_run (started demo_inst 1) = Inr sy"
    and tg: "\<forall>i < 1. port_tags sy ! i = marks 0 (map block_items (begun sy))"
    by (elim exE conjE)
  have d: "case run demo_cv demo_run (started demo_inst 1) of
             Inl e \<Rightarrow> False
           | Inr sy \<Rightarrow> ports sy = [[5, 6, 7, 8, 5, 6, 7, 8]] \<and> port_tags sy = [[(0, 4), (4, 4)]]"
    by code_simp
  from d sy have e: "ports sy = [[5, 6, 7, 8, 5, 6, 7, 8]]" "port_tags sy = [[(0, 4), (4, 4)]]"
    by simp_all
  from tg have f: "port_tags sy ! 0 = marks 0 (map block_items (begun sy))" by simp
  from sy e f have "\<exists>sy. run demo_cv demo_run (started demo_inst 1) = Inr sy \<and>
         ports sy = [[5, 6, 7, 8, 5, 6, 7, 8]] \<and> port_tags sy = [[(0, 4), (4, 4)]] \<and>
         port_tags sy ! 0 = marks 0 (map block_items (begun sy))"
    by (intro exI [of _ sy] conjI)
  moreover have w: "work_copy demo_cv (\<lambda>i. 0) 1 2 demo_filled =
     (Produced 2 [(Some (0, 4), [5, 6])],
      demo_filled\<lparr>d_items_in_buffer := 2, d_sample_index := 2\<rparr>)"
    by code_simp
  moreover have "fst ([(Some (0 :: nat, 4 :: nat), [5, 6 :: int])] ! 0) =
     (if d_sample_index demo_filled = 0 then Some (0, d_items_in_buffer demo_filled) else None)"
    by (rule buffer_start_tags [OF a b c, THEN conjunct2, rule_format, OF w, of 0]) simp
  ultimately show ?thesis using a b c by (intro conjI)
qed


end
